theory Spec2Isabelle
  imports Main "HOL-Library.Word" "HOL-Library.Multiset"
begin

unbundle bit_operations_syntax

section \<open>Machine integers and library contracts\<close>

text \<open>
  \<^verbatim>\<open>uint32_t\<close> values are 32-bit words, \<^verbatim>\<open>uint64_t\<close> values 64-bit words and
  \<^verbatim>\<open>size_t\<close> values natural numbers (64-bit on the platforms the daemon is built for;
  every \<^verbatim>\<open>size_t\<close> sum below is smaller than \<open>2 ^ 33\<close>, so it cannot wrap).  IPv4
  addresses are kept in host byte order: \<^verbatim>\<open>ntohl\<close> and \<^verbatim>\<open>htonl\<close> are inverse
  bijections and only ever bracket the arithmetic.
\<close>

type_synonym u32 = "32 word"
type_synonym u64 = "64 word"

text \<open>
  The bitmap helpers come from the Open vSwitch library.  A bitmap is a list of bits;
  \<^verbatim>\<open>bitmap_scan(bitmap, target, start, end)\<close> returns the lowest index in
  \<open>[start, end)\<close> whose bit equals \<open>target\<close>, or \<open>end\<close> if there is none.
\<close>

definition bitmap_allocate :: "nat \<Rightarrow> bool list" where
  "bitmap_allocate n = replicate n False"

definition bitmap_set1 :: "bool list \<Rightarrow> nat \<Rightarrow> bool list" where
  "bitmap_set1 bm i = bm[i := True]"

definition bitmap_is_set :: "bool list \<Rightarrow> nat \<Rightarrow> bool" where
  "bitmap_is_set bm i = (i < length bm \<and> bm ! i)"

fun bitmap_set_multiple :: "bool list \<Rightarrow> nat \<Rightarrow> nat \<Rightarrow> bool list" where
  "bitmap_set_multiple bm start 0 = bm"
| "bitmap_set_multiple bm start (Suc n) = bitmap_set_multiple (bm[start := True]) (Suc start) n"

definition bitmap_scan :: "bool list \<Rightarrow> bool \<Rightarrow> nat \<Rightarrow> nat \<Rightarrow> nat" where
  "bitmap_scan bm target start end =
     (case find (\<lambda>i. bm ! i = target) [start..<end] of None \<Rightarrow> end | Some i \<Rightarrow> i)"

section \<open>IPv4 address management\<close>

text \<open>
  \<^verbatim>\<open>struct ipam_info\<close>, restricted to its IPv4 part.  \<open>allocated_ipv4s\<close> is \<open>None\<close>
  for the NULL bitmap of a switch without a usable subnet.
\<close>

record ipam_info =
  start_ipv4 :: u32
  total_ipv4s :: nat
  allocated_ipv4s :: "bool list option"

definition ipam_zero :: ipam_info where
  "ipam_zero = \<lparr>start_ipv4 = 0, total_ipv4s = 0, allocated_ipv4s = None\<rparr>"

text \<open>
  \<^verbatim>\<open>other_config:subnet\<close> after \<^verbatim>\<open>ip_parse_masked\<close> (a library parser): absent, rejected
  by the parser, or an address and a mask.  \<^verbatim>\<open>ip_is_cidr\<close> is the library's inline test
  that the inverted mask is one less than a power of two.
\<close>

datatype subnet_option = NoSubnet | BadSubnet | Subnet u32 u32

definition ip_is_cidr :: "u32 \<Rightarrow> bool" where
  "ip_is_cidr netmask = (let x = NOT netmask in x AND (x + 1) = 0)"

text \<open>
  The token stream the expression lexer produces for \<^verbatim>\<open>exclude_ips\<close>; the end of the list
  is \<^verbatim>\<open>LEX_T_END\<close>, and \<open>LEX_T_OTHER\<close> stands for every other token type.
\<close>

datatype lex_token = LEX_T_INTEGER u32 | LEX_T_ELLIPSIS | LEX_T_OTHER

text \<open>One clamped range of the \<^verbatim>\<open>exclude_ips\<close> loop: \<open>start0\<close> and \<open>end0\<close> as parsed.\<close>

definition exclude_range :: "ipam_info \<Rightarrow> u32 \<Rightarrow> u32 \<Rightarrow> ipam_info" where
  "exclude_range ipam start0 end0 =
     (let start = max (start_ipv4 ipam) start0;
          end = min (unat (start_ipv4 ipam) + total_ipv4s ipam) (unat end0)
      in if end > unat start
         then ipam\<lparr>allocated_ipv4s :=
                map_option (\<lambda>bm. bitmap_set_multiple bm (unat (start - start_ipv4 ipam))
                                     (end - unat start)) (allocated_ipv4s ipam)\<rparr>
         else ipam)"

fun exclude_ips_loop :: "ipam_info \<Rightarrow> lex_token list \<Rightarrow> ipam_info" where
  "exclude_ips_loop ipam [] = ipam"
| "exclude_ips_loop ipam (LEX_T_INTEGER s # LEX_T_ELLIPSIS # LEX_T_INTEGER e # rest) =
     exclude_ips_loop (exclude_range ipam s (e + 1)) rest"
| "exclude_ips_loop ipam (LEX_T_INTEGER s # LEX_T_ELLIPSIS # rest) = ipam"
| "exclude_ips_loop ipam (LEX_T_INTEGER s # rest) =
     exclude_ips_loop (exclude_range ipam s (s + 1)) rest"
| "exclude_ips_loop ipam (t # rest) = ipam"

text \<open>
  \<^verbatim>\<open>init_ipam_info_for_datapath\<close> for a logical switch, given the parsed subnet and the
  tokens of \<^verbatim>\<open>exclude_ips\<close> (\<open>None\<close> when the key is absent).  The datapath record is
  zero-initialised (\<^verbatim>\<open>xzalloc\<close>) before.
\<close>

definition init_ipam_info_for_datapath :: "subnet_option \<Rightarrow> lex_token list option \<Rightarrow> ipam_info" where
  "init_ipam_info_for_datapath subnet_cfg exclude_ip_list =
     (case subnet_cfg of
        NoSubnet \<Rightarrow> ipam_zero
      | BadSubnet \<Rightarrow> ipam_zero
      | Subnet subnet netmask \<Rightarrow>
          if netmask = - 1 \<or> \<not> ip_is_cidr netmask then ipam_zero
          else
            let total = unat (NOT netmask);
                ipam = \<lparr>start_ipv4 = subnet + 1, total_ipv4s = total,
                        allocated_ipv4s = Some (bitmap_set1 (bitmap_allocate total) 0)\<rparr>
            in case exclude_ip_list of
                 None \<Rightarrow> ipam
               | Some toks \<Rightarrow> exclude_ips_loop ipam toks)"

definition ipam_insert_ip :: "ipam_info \<Rightarrow> u32 \<Rightarrow> ipam_info" where
  "ipam_insert_ip ipam ip =
     (case allocated_ipv4s ipam of
        None \<Rightarrow> ipam
      | Some bm \<Rightarrow>
          if ip \<ge> start_ipv4 ipam \<and> unat ip < unat (start_ipv4 ipam) + total_ipv4s ipam
          then ipam\<lparr>allocated_ipv4s := Some (bitmap_set1 bm (unat (ip - start_ipv4 ipam)))\<rparr>
          else ipam)"

text \<open>
  \<^verbatim>\<open>ipam_get_unused_ip\<close>.  The sum \<^verbatim>\<open>start_ipv4 + new_ip_index\<close> is computed in
  \<^verbatim>\<open>size_t\<close> and truncated to the \<^verbatim>\<open>uint32_t\<close> return type.
\<close>

definition ipam_get_unused_ip :: "ipam_info \<Rightarrow> u32" where
  "ipam_get_unused_ip ipam =
     (case allocated_ipv4s ipam of
        None \<Rightarrow> 0
      | Some bm \<Rightarrow>
          let new_ip_index = bitmap_scan bm False 0 (total_ipv4s ipam - 1)
          in if new_ip_index = total_ipv4s ipam - 1 then 0
             else word_of_nat (unat (start_ipv4 ipam) + new_ip_index))"

text \<open>
  The invariant of an IPAM record during a pass: the bitmap has \<open>total_ipv4s\<close> bits, bit 0
  (the address the router claims) is set, and every set bit stands for an address that fits in
  32 bits.
\<close>

definition ipam_inv :: "ipam_info \<Rightarrow> bool" where
  "ipam_inv ipam =
     (case allocated_ipv4s ipam of
        None \<Rightarrow> True
      | Some bm \<Rightarrow> length bm = total_ipv4s ipam \<and> 0 < total_ipv4s ipam \<and> bm ! 0
           \<and> (\<forall>i < length bm. bm ! i \<longrightarrow> unat (start_ipv4 ipam) + i < 2 ^ 32))"

section \<open>MAC address management\<close>

text \<open>
  A \<^verbatim>\<open>struct eth_addr\<close> is the 48-bit big-endian value of its six octets;
  \<^verbatim>\<open>eth_addr_to_uint64\<close> and \<^verbatim>\<open>eth_addr_from_uint64\<close> (library helpers) convert between
  it and \<^verbatim>\<open>uint64_t\<close>, the latter keeping the low 48 bits.
\<close>

type_synonym eth_addr = "48 word"

definition eth_addr_to_uint64 :: "eth_addr \<Rightarrow> u64" where
  "eth_addr_to_uint64 ea = ucast ea"

definition eth_addr_from_uint64 :: "u64 \<Rightarrow> eth_addr" where
  "eth_addr_from_uint64 x = ucast x"

definition MAC_ADDR_SPACE :: nat where
  "MAC_ADDR_SPACE = 0xffffff"

text \<open>
  The process-wide \<^verbatim>\<open>mac_prefix\<close> is only ever written from three octets, with the
  low three octets zeroed (\<^verbatim>\<open>memset\<close>): either parsed from \<^verbatim>\<open>options:mac_prefix\<close> or drawn
  at random.
\<close>

definition set_mac_prefix :: "8 word \<Rightarrow> 8 word \<Rightarrow> 8 word \<Rightarrow> eth_addr" where
  "set_mac_prefix ea0 ea1 ea2 =
     push_bit 40 (ucast ea0) OR push_bit 32 (ucast ea1) OR push_bit 24 (ucast ea2)"

text \<open>
  The MACAM table is a hash map of addresses keyed by the hash of their 64-bit value; only
  membership is ever asked of it, so it is a set of addresses.
\<close>

definition ipam_is_duplicate_mac :: "eth_addr set \<Rightarrow> eth_addr \<Rightarrow> bool" where
  "ipam_is_duplicate_mac macam ea = (ea \<in> macam)"

definition ipam_insert_mac :: "eth_addr \<Rightarrow> eth_addr set \<Rightarrow> eth_addr \<Rightarrow> bool \<Rightarrow> eth_addr set" where
  "ipam_insert_mac mac_prefix macam ea check =
     (let mac64 = eth_addr_to_uint64 ea; prefix = eth_addr_to_uint64 mac_prefix
      in if drop_bit 24 (mac64 XOR prefix) \<noteq> 0 \<or> (check \<and> ipam_is_duplicate_mac macam ea)
         then macam else insert ea macam)"

text \<open>
  The probing loop of \<^verbatim>\<open>ipam_get_unused_mac\<close>: the state is the loop index \<open>i\<close> and the
  last tentative \<open>mac64\<close>; the result is their value when the loop is left, by
  \<^verbatim>\<open>break\<close> or by its bound.  \<open>base_addr + i\<close> stays below \<open>2 ^ 25\<close>, so the 32-bit sum does
  not wrap.
\<close>

function ipam_mac_scan :: "eth_addr set \<Rightarrow> u64 \<Rightarrow> nat \<Rightarrow> nat \<Rightarrow> u64 \<Rightarrow> nat \<times> u64" where
  "ipam_mac_scan macam prefix base_addr i mac64 =
     (if i < MAC_ADDR_SPACE - 1 then
        let mac_addr_suffix = ((base_addr + i) mod (MAC_ADDR_SPACE - 1)) + 1;
            mac64' = prefix OR word_of_nat mac_addr_suffix
        in if \<not> ipam_is_duplicate_mac macam (eth_addr_from_uint64 mac64') then (i, mac64')
           else ipam_mac_scan macam prefix base_addr (i + 1) mac64'
      else (i, mac64))"
  by pat_completeness auto
termination
  by (relation "measure (\<lambda>(macam, prefix, base_addr, i, mac64). MAC_ADDR_SPACE - 1 - i)") auto

text \<open>
  \<^verbatim>\<open>ipam_get_unused_mac\<close>, with the hint address in host byte order.  The C variable
  \<^verbatim>\<open>mac64\<close> is uninitialised before the loop; the loop body runs at least once, so the
  initial value passed here is never returned.
\<close>

definition ipam_get_unused_mac :: "eth_addr \<Rightarrow> eth_addr set \<Rightarrow> u32 \<Rightarrow> u64" where
  "ipam_get_unused_mac mac_prefix macam ip =
     (let base_addr = unat (ip AND 0xffffff);
          (i, mac64) = ipam_mac_scan macam (eth_addr_to_uint64 mac_prefix) base_addr 0 0
      in if i = MAC_ADDR_SPACE then 0 else mac64)"

text \<open>The MACAM table in which every managed suffix from 1 to \<open>0xfffffe\<close> is taken.\<close>

definition full_macam :: "eth_addr \<Rightarrow> eth_addr set" where
  "full_macam mac_prefix =
     (\<lambda>s. eth_addr_from_uint64 (eth_addr_to_uint64 mac_prefix OR word_of_nat s)) ` {1..16777214}"

text \<open>The suffix probed in iteration \<open>i\<close> of that loop.\<close>

definition mac_suffix :: "nat \<Rightarrow> nat \<Rightarrow> nat" where
  "mac_suffix base_addr i = ((base_addr + i) mod (MAC_ADDR_SPACE - 1)) + 1"

section \<open>Dynamic address updates\<close>

datatype error = NotReached | NullDeref | AssertionFailed

datatype dynamic_update_type = NONE | REMOVE | STATIC | DYNAMIC

text \<open>
  \<^verbatim>\<open>struct lport_addresses\<close> and \<^verbatim>\<open>struct dynamic_address_update\<close>, without their IPv6
  parts (the IPv6 address is derived after the MAC and IPv4 address are chosen and feeds
  neither allocator).  \<open>upd_od\<close> names the switch the update belongs to.
\<close>

record lport_addresses =
  ea :: eth_addr
  ipv4_addrs :: "u32 list"

record dynamic_address_update =
  upd_od :: nat
  current_addresses :: lport_addresses
  static_mac :: eth_addr
  static_ip :: u32
  upd_mac :: dynamic_update_type
  upd_ipv4 :: dynamic_update_type

text \<open>The address state of a pass: the process-wide MACAM table and the IPAM record of every switch.\<close>

record ipam_state =
  st_macam :: "eth_addr set"
  st_ipams :: "nat \<Rightarrow> ipam_info"

text \<open>
  \<^verbatim>\<open>update_dynamic_addresses\<close>: returns the new state and the MAC and IPv4 address (0 for
  none) written to the port's \<^verbatim>\<open>dynamic_addresses\<close>.  A MAC update of type \<open>REMOVE\<close> hits
  \<^verbatim>\<open>OVS_NOT_REACHED\<close>.
\<close>

definition update_dynamic_addresses ::
  "eth_addr \<Rightarrow> dynamic_address_update \<Rightarrow> ipam_state \<Rightarrow> error + (ipam_state \<times> eth_addr \<times> u32)" where
  "update_dynamic_addresses mac_prefix update st =
     (let ip4 = (case upd_ipv4 update of
                   NONE \<Rightarrow> (case ipv4_addrs (current_addresses update) of [] \<Rightarrow> 0 | a # _ \<Rightarrow> a)
                 | REMOVE \<Rightarrow> 0
                 | STATIC \<Rightarrow> static_ip update
                 | DYNAMIC \<Rightarrow> ipam_get_unused_ip (st_ipams st (upd_od update)))
      in case (case upd_mac update of
                 NONE \<Rightarrow> Inr (ea (current_addresses update))
               | REMOVE \<Rightarrow> Inl NotReached
               | STATIC \<Rightarrow> Inr (static_mac update)
               | DYNAMIC \<Rightarrow> Inr (eth_addr_from_uint64 (ipam_get_unused_mac mac_prefix (st_macam st) ip4)))
         of Inl e \<Rightarrow> Inl e
          | Inr mac \<Rightarrow>
              let macam' = ipam_insert_mac mac_prefix (st_macam st) mac True;
                  ipams' = (if ip4 \<noteq> 0
                            then (st_ipams st)(upd_od update := ipam_insert_ip (st_ipams st (upd_od update)) ip4)
                            else st_ipams st)
              in Inr (\<lparr>st_macam = macam', st_ipams = ipams'\<rparr>, mac, ip4))"

text \<open>The final loop of \<^verbatim>\<open>build_ipam\<close> over the queued updates, in order.\<close>

fun process_updates ::
  "eth_addr \<Rightarrow> dynamic_address_update list \<Rightarrow> ipam_state \<Rightarrow> error + (ipam_state \<times> (eth_addr \<times> u32) list)" where
  "process_updates mac_prefix [] st = Inr (st, [])"
| "process_updates mac_prefix (u # us) st =
     (case update_dynamic_addresses mac_prefix u st of
        Inl e \<Rightarrow> Inl e
      | Inr (st1, mac, ip4) \<Rightarrow>
          (case process_updates mac_prefix us st1 of
             Inl e \<Rightarrow> Inl e
           | Inr (st2, outs) \<Rightarrow> Inr (st2, (mac, ip4) # outs)))"

text \<open>
  The state in which the updates run: every switch \<open>d\<close> initialised from its configuration
  \<open>cfgs d\<close>, then the addresses \<open>claims d\<close> inserted (static addresses, router-port addresses
  and retained dynamic addresses, through \<^verbatim>\<open>ipam_insert_ip\<close>).
\<close>

definition ipam_pass_state ::
  "(nat \<Rightarrow> subnet_option \<times> lex_token list option) \<Rightarrow> (nat \<Rightarrow> u32 list) \<Rightarrow> eth_addr set \<Rightarrow> ipam_state" where
  "ipam_pass_state cfgs claims macam0 =
     \<lparr>st_macam = macam0,
      st_ipams = (\<lambda>d. foldl ipam_insert_ip
                 (init_ipam_info_for_datapath (fst (cfgs d)) (snd (cfgs d))) (claims d))\<rparr>"

text \<open>The switch and address of every update that drew a dynamic IPv4 address.\<close>

definition dynamic_ips :: "dynamic_address_update list \<Rightarrow> (eth_addr \<times> u32) list \<Rightarrow> (nat \<times> u32) list" where
  "dynamic_ips us outs =
     map (\<lambda>(u, out). (upd_od u, snd out))
       (filter (\<lambda>(u, out). upd_ipv4 u = DYNAMIC \<and> snd out \<noteq> 0) (zip us outs))"

text \<open>
  The ranges \<open>(start, end)\<close>, \<open>end\<close> exclusive, that the \<^verbatim>\<open>exclude_ips\<close> loop hands to the
  clamping step before it stops.
\<close>

fun excluded_ranges :: "lex_token list \<Rightarrow> (u32 \<times> u32) list" where
  "excluded_ranges [] = []"
| "excluded_ranges (LEX_T_INTEGER s # LEX_T_ELLIPSIS # LEX_T_INTEGER e # rest) =
     (s, e + 1) # excluded_ranges rest"
| "excluded_ranges (LEX_T_INTEGER s # LEX_T_ELLIPSIS # rest) = []"
| "excluded_ranges (LEX_T_INTEGER s # rest) = (s, s + 1) # excluded_ranges rest"
| "excluded_ranges (t # rest) = []"

text \<open>\<open>ipam_le a b\<close>: \<open>b\<close> is \<open>a\<close> with possibly more bits set.\<close>

definition ipam_le :: "ipam_info \<Rightarrow> ipam_info \<Rightarrow> bool" where
  "ipam_le a b =
     (start_ipv4 a = start_ipv4 b \<and> total_ipv4s a = total_ipv4s b \<and>
      (case allocated_ipv4s a of
         None \<Rightarrow> allocated_ipv4s b = None
       | Some x \<Rightarrow> (case allocated_ipv4s b of
                      None \<Rightarrow> False
                    | Some y \<Rightarrow> length x = length y \<and> (\<forall>i < length x. x ! i \<longrightarrow> y ! i))))"

text \<open>The clamping step applied to a list of ranges in order.\<close>

definition exclude_ranges :: "ipam_info \<Rightarrow> (u32 \<times> u32) list \<Rightarrow> ipam_info" where
  "exclude_ranges ipam rs = foldl (\<lambda>a (s, e). exclude_range a s e) ipam rs"

text \<open>
  \<open>alloc_ok a a' ip\<close>: between the states \<open>a\<close> and \<open>a'\<close> of one switch the address \<open>ip\<close>
  was drawn: its bit, at an index from 1 to \<open>total_ipv4s - 2\<close>, is clear in \<open>a\<close> and set
  in \<open>a'\<close>.
\<close>

definition alloc_ok :: "ipam_info \<Rightarrow> ipam_info \<Rightarrow> u32 \<Rightarrow> bool" where
  "alloc_ok a a' ip =
     (\<exists>bm bm' idx. allocated_ipv4s a = Some bm \<and> allocated_ipv4s a' = Some bm' \<and>
        1 \<le> idx \<and> idx < total_ipv4s a - 1 \<and> idx < length bm \<and> idx < length bm' \<and>
        \<not> bm ! idx \<and> bm' ! idx \<and> unat ip = unat (start_ipv4 a) + idx)"

text \<open>Every switch satisfies the IPAM invariant.\<close>

definition invs :: "ipam_state \<Rightarrow> bool" where
  "invs st = (\<forall>d. ipam_inv (st_ipams st d))"

section \<open>Tunnel-id allocator\<close>

text \<open>
  The in-use table (\<^verbatim>\<open>struct hmap *set\<close>) is a set of ids: \<^verbatim>\<open>add_tnlid\<close> inserts and
  \<^verbatim>\<open>tnlid_in_use\<close> tests membership.  The parameters \<^verbatim>\<open>set\<close>, \<^verbatim>\<open>min\<close> and \<^verbatim>\<open>max\<close> are
  written \<open>in_use\<close>, \<open>tmin\<close> and \<open>tmax\<close>.
\<close>

definition add_tnlid :: "u32 set \<Rightarrow> u32 \<Rightarrow> u32 set" where
  "add_tnlid in_use tnlid = insert tnlid in_use"

definition tnlid_in_use :: "u32 set \<Rightarrow> u32 \<Rightarrow> bool" where
  "tnlid_in_use in_use tnlid = (tnlid \<in> in_use)"

definition next_tnlid :: "u32 \<Rightarrow> u32 \<Rightarrow> u32 \<Rightarrow> u32" where
  "next_tnlid tnlid tmin tmax = (if tnlid + 1 \<le> tmax then tnlid + 1 else tmin)"

text \<open>
  The \<^verbatim>\<open>for\<close> loop of \<^verbatim>\<open>allocate_tnlid\<close>, entered with the current \<open>tnlid\<close>.  It may run
  forever, which is the value \<open>None\<close>; \<open>Some (Some tnlid)\<close> is the \<^verbatim>\<open>return tnlid\<close> inside
  the loop and \<open>Some None\<close> is leaving the loop because \<open>tnlid = *hint\<close>.
\<close>

partial_function (option) allocate_scan ::
  "u32 set \<Rightarrow> u32 \<Rightarrow> u32 \<Rightarrow> u32 \<Rightarrow> u32 \<Rightarrow> u32 option option" where
  "allocate_scan in_use tmin tmax hint tnlid =
     (if tnlid = hint then Some None
      else if \<not> tnlid_in_use in_use tnlid then Some (Some tnlid)
      else allocate_scan in_use tmin tmax hint (next_tnlid tnlid tmin tmax))"

text \<open>
  \<^verbatim>\<open>allocate_tnlid\<close>: the returned id, the new in-use set and the new hint.  Leaving the loop
  logs the rate-limited warning and returns 0 with set and hint unchanged.
\<close>

definition allocate_tnlid :: "u32 set \<Rightarrow> u32 \<Rightarrow> u32 \<Rightarrow> u32 \<Rightarrow> (u32 \<times> u32 set \<times> u32) option" where
  "allocate_tnlid in_use tmin tmax hint =
     (case allocate_scan in_use tmin tmax hint (next_tnlid hint tmin tmax) of
        None \<Rightarrow> None
      | Some None \<Rightarrow> Some (0, in_use, hint)
      | Some (Some tnlid) \<Rightarrow> Some (tnlid, add_tnlid in_use tnlid, tnlid))"

text \<open>\<open>y\<close> is probed after \<open>hint\<close> and before \<open>t\<close> in the wrap-around scan of \<open>[tmin, tmax]\<close>.\<close>

definition scanned_before :: "u32 \<Rightarrow> u32 \<Rightarrow> u32 \<Rightarrow> u32 \<Rightarrow> u32 \<Rightarrow> bool" where
  "scanned_before tmin tmax hint t y =
     (if hint < t then hint < y \<and> y < t
      else (hint < y \<and> y \<le> tmax) \<or> (tmin \<le> y \<and> y < t))"

section \<open>Ports and their peers\<close>

text \<open>
  The northbound rows a port refers to, with the columns the peering sweep reads:
  \<^verbatim>\<open>type\<close> and \<^verbatim>\<open>options\<close> of a Logical_Switch_Port and \<^verbatim>\<open>peer\<close> of a
  Logical_Router_Port.  An \<^verbatim>\<open>smap\<close> is an association list and \<^verbatim>\<open>smap_get\<close> its lookup.
\<close>

record nbrec_logical_switch_port =
  lsp_type :: string
  lsp_options :: "(string \<times> string) list"

record nbrec_logical_router_port =
  lrp_peer :: "string option"

definition smap_get :: "(string \<times> string) list \<Rightarrow> string \<Rightarrow> string option" where
  "smap_get smap k = map_of smap k"

text \<open>
  \<^verbatim>\<open>struct ovn_port\<close>.  The port table (\<^verbatim>\<open>struct hmap *ports\<close>) is the list of its ports in
  iteration order, and a pointer to a port is its index in that list; \<open>op_od\<close> is the index
  of the port's datapath, \<open>op_mcast_flood\<close> is \<^verbatim>\<open>mcast_info.flood\<close>.  A NULL pointer is \<open>None\<close>.
\<close>

record ovn_port =
  op_key :: string
  op_nbsp :: "nbrec_logical_switch_port option"
  op_nbrp :: "nbrec_logical_router_port option"
  op_mcast_flood :: bool
  op_derived :: bool
  op_peer :: "nat option"
  op_od :: "nat option"

text \<open>\<^verbatim>\<open>ovn_port_find\<close>: the first port of the table with the given key.\<close>

definition ovn_port_find :: "ovn_port list \<Rightarrow> string \<Rightarrow> nat option" where
  "ovn_port_find ports name = find (\<lambda>i. op_key (ports ! i) = name) [0..<length ports]"

section \<open>IGMP group ports\<close>

text \<open>
  The multicast part of \<^verbatim>\<open>struct ovn_datapath\<close> that the port extraction reads:
  \<^verbatim>\<open>mcast_info.rtr.relay\<close>.
\<close>

record ovn_datapath_mcast =
  od_rtr_relay :: bool

text \<open>Following a pointer into a table; a pointer outside the table is not a valid object.\<close>

definition deref :: "'a list \<Rightarrow> nat \<Rightarrow> error + 'a" where
  "deref tbl p = (if p < length tbl then Inr (tbl ! p) else Inl NullDeref)"

text \<open>
  The test \<^verbatim>\<open>port->peer && port->peer->od && port->peer->od->mcast_info.rtr.relay\<close>.
\<close>

definition peer_relay :: "ovn_port list \<Rightarrow> ovn_datapath_mcast list \<Rightarrow> ovn_port \<Rightarrow> error + bool" where
  "peer_relay ports dps port =
     (case op_peer port of
        None \<Rightarrow> Inr False
      | Some pp \<Rightarrow>
          (case deref ports pp of
             Inl e \<Rightarrow> Inl e
           | Inr peer \<Rightarrow>
               (case op_od peer of
                  None \<Rightarrow> Inr False
                | Some d \<Rightarrow>
                    (case deref dps d of
                       Inl e \<Rightarrow> Inl e
                     | Inr od \<Rightarrow> Inr (od_rtr_relay od)))))"

text \<open>
  The loop of \<^verbatim>\<open>ovn_igmp_group_get_ports\<close> over the \<^verbatim>\<open>logical_port\<close> names of the
  group's port bindings; \<open>acc\<close> is the array filled so far (\<open>n_ports\<close> is its length).  The
  looked-up pointer is dereferenced for \<^verbatim>\<open>mcast_info.flood\<close> first; the slot is written
  and then tested for NULL.  (The second \<^verbatim>\<open>ovn_port_find\<close> call is an expression statement
  whose value is dropped.)
\<close>

fun igmp_ports_loop ::
  "ovn_port list \<Rightarrow> ovn_datapath_mcast list \<Rightarrow> string list \<Rightarrow> nat list \<Rightarrow> error + nat list" where
  "igmp_ports_loop ports dps [] acc = Inr acc"
| "igmp_ports_loop ports dps (name # names) acc =
     (let port = ovn_port_find ports name
      in case port of
           None \<Rightarrow> Inl NullDeref
         | Some p \<Rightarrow>
             if op_mcast_flood (ports ! p) then igmp_ports_loop ports dps names acc
             else (case peer_relay ports dps (ports ! p) of
                     Inl e \<Rightarrow> Inl e
                   | Inr True \<Rightarrow> igmp_ports_loop ports dps names acc
                   | Inr False \<Rightarrow>
                       (let slot = port
                        in case slot of
                             None \<Rightarrow> igmp_ports_loop ports dps names acc
                           | Some q \<Rightarrow> igmp_ports_loop ports dps names (acc @ [q]))))"

definition ovn_igmp_group_get_ports ::
  "string list \<Rightarrow> ovn_port list \<Rightarrow> ovn_datapath_mcast list \<Rightarrow> error + nat list" where
  "ovn_igmp_group_get_ports logical_ports ports dps = igmp_ports_loop ports dps logical_ports []"

text \<open>Every peer and datapath pointer of the port table points into its table.\<close>

definition pointers_valid :: "ovn_port list \<Rightarrow> ovn_datapath_mcast list \<Rightarrow> bool" where
  "pointers_valid ports dps =
     (\<forall>port \<in> set ports.
        (case op_peer port of None \<Rightarrow> True | Some pp \<Rightarrow> pp < length ports) \<and>
        (case op_od port of None \<Rightarrow> True | Some d \<Rightarrow> d < length dps))"

section \<open>The peering sweep\<close>

text \<open>
  The two branch conditions of the sweep at the end of \<^verbatim>\<open>join_logical_ports\<close>:
  \<^verbatim>\<open>op->nbsp && !strcmp(op->nbsp->type, "router") && !op->derived\<close>, giving the switch port
  row, and otherwise \<^verbatim>\<open>op->nbrp && op->nbrp->peer && !op->derived\<close>, giving the peer name.
\<close>

definition lsp_router_branch :: "ovn_port \<Rightarrow> nbrec_logical_switch_port option" where
  "lsp_router_branch op =
     (case op_nbsp op of
        None \<Rightarrow> None
      | Some nbsp \<Rightarrow> if lsp_type nbsp = ''router'' \<and> \<not> op_derived op then Some nbsp else None)"

definition lrp_peer_branch :: "ovn_port \<Rightarrow> string option" where
  "lrp_peer_branch op =
     (case op_nbrp op of
        None \<Rightarrow> None
      | Some nbrp \<Rightarrow>
          (case lrp_peer nbrp of
             None \<Rightarrow> None
           | Some peer_name \<Rightarrow> if \<not> op_derived op then Some peer_name else None))"

definition set_peer :: "ovn_port list \<Rightarrow> nat \<Rightarrow> nat \<Rightarrow> ovn_port list" where
  "set_peer ports i j = ports[i := (ports ! i)\<lparr>op_peer := Some j\<rparr>]"

text \<open>
  One iteration of the sweep, for the port at index \<open>i\<close>.  The switch-port branch stores
  \<^verbatim>\<open>peer->peer = op\<close> and then \<^verbatim>\<open>op->peer = peer\<close>; the router-port branch stores only
  \<^verbatim>\<open>op->peer = peer\<close>.  The switch-port branch also appends the port to its datapath's
  \<^verbatim>\<open>router_ports\<close>, expands the \<^verbatim>\<open>"router"\<close> address and may set the datapath's
  \<^verbatim>\<open>flood_relay\<close>; those writes touch no peer field and are left out.
\<close>

definition connect_port :: "ovn_port list \<Rightarrow> nat \<Rightarrow> ovn_port list" where
  "connect_port ports i =
     (case lsp_router_branch (ports ! i) of
        Some nbsp \<Rightarrow>
          (case smap_get (lsp_options nbsp) ''router-port'' of
             None \<Rightarrow> ports
           | Some peer_name \<Rightarrow>
               (case ovn_port_find ports peer_name of
                  None \<Rightarrow> ports
                | Some j \<Rightarrow>
                    if op_nbrp (ports ! j) = None then ports
                    else set_peer (set_peer ports j i) i j))
      | None \<Rightarrow>
          (case lrp_peer_branch (ports ! i) of
             None \<Rightarrow> ports
           | Some peer_name \<Rightarrow>
               (case ovn_port_find ports peer_name of
                  None \<Rightarrow> ports
                | Some j \<Rightarrow>
                    if op_nbrp (ports ! j) \<noteq> None then set_peer ports i j else ports)))"

definition connect_peers :: "ovn_port list \<Rightarrow> ovn_port list" where
  "connect_peers ports = foldl connect_port ports [0..<length ports]"

text \<open>
  What the configuration asks for: \<open>sw_target ports i\<close> is the router port that the
  router-type switch port \<open>i\<close> pairs with, \<open>rr_target ports i\<close> the router port that the router
  port \<open>i\<close> links to through its \<^verbatim>\<open>peer\<close> column.
\<close>

definition sw_target :: "ovn_port list \<Rightarrow> nat \<Rightarrow> nat option" where
  "sw_target ports i =
     (case lsp_router_branch (ports ! i) of
        None \<Rightarrow> None
      | Some nbsp \<Rightarrow>
          (case smap_get (lsp_options nbsp) ''router-port'' of
             None \<Rightarrow> None
           | Some peer_name \<Rightarrow>
               (case ovn_port_find ports peer_name of
                  None \<Rightarrow> None
                | Some j \<Rightarrow> if op_nbrp (ports ! j) = None then None else Some j)))"

definition rr_target :: "ovn_port list \<Rightarrow> nat \<Rightarrow> nat option" where
  "rr_target ports i =
     (case lsp_router_branch (ports ! i) of
        Some nbsp \<Rightarrow> None
      | None \<Rightarrow>
          (case lrp_peer_branch (ports ! i) of
             None \<Rightarrow> None
           | Some peer_name \<Rightarrow>
               (case ovn_port_find ports peer_name of
                  None \<Rightarrow> None
                | Some j \<Rightarrow> if op_nbrp (ports ! j) \<noteq> None then Some j else None)))"

text \<open>
  A reciprocal configuration: a router port is the \<^verbatim>\<open>router-port\<close> of at most one switch
  port, such a router port neither pairs nor links with anything itself, and router-port
  links come in mutual pairs.
\<close>

definition peering_consistent :: "ovn_port list \<Rightarrow> bool" where
  "peering_consistent ports =
     ((\<forall>i < length ports. \<forall>j. sw_target ports i = Some j \<longrightarrow>
          (\<forall>i' < length ports. sw_target ports i' = Some j \<longrightarrow> i' = i) \<and>
          sw_target ports j = None \<and> rr_target ports j = None) \<and>
      (\<forall>i < length ports. \<forall>j. rr_target ports i = Some j \<longrightarrow> rr_target ports j = Some i))"

text \<open>Two port tables that differ at most in their peer fields.\<close>

definition same_config :: "ovn_port list \<Rightarrow> ovn_port list \<Rightarrow> bool" where
  "same_config ports' ports =
     (length ports' = length ports \<and>
      (\<forall>i < length ports. (ports' ! i)\<lparr>op_peer := None\<rparr> = (ports ! i)\<lparr>op_peer := None\<rparr>))"

text \<open>The sweep step on the peer fields alone, given the two target functions.\<close>

definition peer_step ::
  "(nat \<Rightarrow> nat option) \<Rightarrow> (nat \<Rightarrow> nat option) \<Rightarrow> (nat \<Rightarrow> nat option) \<Rightarrow> nat \<Rightarrow> (nat \<Rightarrow> nat option)" where
  "peer_step T R pe i =
     (case T i of
        Some j \<Rightarrow> (pe(j := Some i))(i := Some j)
      | None \<Rightarrow> (case R i of Some j \<Rightarrow> pe(i := Some j) | None \<Rightarrow> pe))"

text \<open>
  The state of the peer fields after the first \<open>k\<close> ports of the sweep: port \<open>p\<close> points to
  \<open>q\<close> exactly when \<open>p\<close> was swept and pairs with or links to \<open>q\<close>, or \<open>q\<close> was swept and
  pairs with \<open>p\<close>.
\<close>

definition peer_inv ::
  "(nat \<Rightarrow> nat option) \<Rightarrow> (nat \<Rightarrow> nat option) \<Rightarrow> nat \<Rightarrow> nat \<Rightarrow> (nat \<Rightarrow> nat option) \<Rightarrow> bool" where
  "peer_inv T R n k pe =
     (\<forall>p < n. \<forall>q. pe p = Some q \<longleftrightarrow>
        ((p < k \<and> T p = Some q) \<or> (q < k \<and> T q = Some p) \<or> (p < k \<and> R p = Some q)))"

definition targets_consistent ::
  "(nat \<Rightarrow> nat option) \<Rightarrow> (nat \<Rightarrow> nat option) \<Rightarrow> nat \<Rightarrow> bool" where
  "targets_consistent T R n =
     ((\<forall>i < n. \<forall>j. T i = Some j \<longrightarrow>
          j < n \<and> (\<forall>i' < n. T i' = Some j \<longrightarrow> i' = i) \<and> T j = None \<and> R j = None \<and> R i = None) \<and>
      (\<forall>i < n. \<forall>j. R i = Some j \<longrightarrow> j < n \<and> R j = Some i))"

text \<open>
  Two small port tables.  In \<open>paired_ports\<close> a switch port of type \<^verbatim>\<open>"router"\<close> names a router
  port in \<^verbatim>\<open>options:router-port\<close>.  In \<open>one_sided_ports\<close> the router port \<^verbatim>\<open>lrp-a\<close> names
  \<^verbatim>\<open>lrp-b\<close> in its \<^verbatim>\<open>peer\<close> column, and \<^verbatim>\<open>lrp-b\<close> leaves that column empty.
\<close>

definition paired_ports :: "ovn_port list" where
  "paired_ports =
     [\<lparr>op_key = ''sw0-lr0'',
        op_nbsp = Some \<lparr>lsp_type = ''router'', lsp_options = [(''router-port'', ''lr0-sw0'')]\<rparr>,
        op_nbrp = None, op_mcast_flood = False, op_derived = False, op_peer = None, op_od = None\<rparr>,
      \<lparr>op_key = ''lr0-sw0'', op_nbsp = None, op_nbrp = Some \<lparr>lrp_peer = None\<rparr>,
        op_mcast_flood = False, op_derived = False, op_peer = None, op_od = None\<rparr>]"

definition one_sided_ports :: "ovn_port list" where
  "one_sided_ports =
     [\<lparr>op_key = ''lrp-a'', op_nbsp = None, op_nbrp = Some \<lparr>lrp_peer = Some ''lrp-b''\<rparr>,
        op_mcast_flood = False, op_derived = False, op_peer = None, op_od = None\<rparr>,
      \<lparr>op_key = ''lrp-b'', op_nbsp = None, op_nbrp = Some \<lparr>lrp_peer = None\<rparr>,
        op_mcast_flood = False, op_derived = False, op_peer = None, op_od = None\<rparr>]"

section \<open>Tunnel keys across a pass\<close>

text \<open>
  A southbound table under the transaction of the pass: \<open>sb_rows\<close> maps a row pointer to the
  row's columns (\<open>None\<close>: no such row, or deleted), and row pointers from \<open>sb_fresh\<close> on are
  unused.  Inserting takes the next unused pointer; writing a column through a pointer to
  no row is a NULL dereference.
\<close>

record 'r sb_table =
  sb_rows :: "nat \<Rightarrow> 'r option"
  sb_fresh :: nat

definition sbrec_insert :: "'r \<Rightarrow> 'r sb_table \<Rightarrow> nat \<times> 'r sb_table" where
  "sbrec_insert row t =
     (sb_fresh t, t\<lparr>sb_rows := (sb_rows t)(sb_fresh t \<mapsto> row), sb_fresh := Suc (sb_fresh t)\<rparr>)"

definition sbrec_update :: "nat \<Rightarrow> ('r \<Rightarrow> 'r) \<Rightarrow> 'r sb_table \<Rightarrow> error + 'r sb_table" where
  "sbrec_update r f t =
     (case sb_rows t r of
        None \<Rightarrow> Inl NullDeref
      | Some row \<Rightarrow> Inr (t\<lparr>sb_rows := (sb_rows t)(r \<mapsto> f row)\<rparr>))"

definition sbrec_delete :: "nat \<Rightarrow> 'r sb_table \<Rightarrow> 'r sb_table" where
  "sbrec_delete r t = t\<lparr>sb_rows := (sb_rows t)(r := None)\<rparr>"

text \<open>
  The loops \<^verbatim>\<open>LIST_FOR_EACH_SAFE (.., &sb_only)\<close> that delete the southbound rows without a
  northbound match, given the \<^verbatim>\<open>sb\<close> pointers of the list.
\<close>

fun delete_sb_only :: "nat option list \<Rightarrow> 'r sb_table \<Rightarrow> error + 'r sb_table" where
  "delete_sb_only [] t = Inr t"
| "delete_sb_only (None # sbs) t = Inl NullDeref"
| "delete_sb_only (Some r # sbs) t = delete_sb_only sbs (sbrec_delete r t)"

text \<open>
  Datapath_Binding rows with the columns \<^verbatim>\<open>tunnel_key\<close> (an OVSDB integer, \<^verbatim>\<open>int64_t\<close>) and
  \<^verbatim>\<open>external_ids\<close>; the columns of a northbound Logical_Switch or Logical_Router that the
  pass reads for them; and \<^verbatim>\<open>struct ovn_datapath\<close> with its key (the UUID as \<^verbatim>\<open>UUID_FMT\<close>
  prints it) and its pointers \<^verbatim>\<open>nbs\<close>, \<^verbatim>\<open>nbr\<close> and \<^verbatim>\<open>sb\<close>.
\<close>

record sbrec_datapath_binding =
  dp_tunnel_key :: int
  dp_external_ids :: "(string \<times> string) list"

record nbrec_logical_datapath =
  nb_name :: string
  nb_external_ids :: "(string \<times> string) list"

record ovn_datapath =
  od_key :: string
  od_nbs :: "nbrec_logical_datapath option"
  od_nbr :: "nbrec_logical_datapath option"
  od_sb :: "nat option"

text \<open>
  \<^verbatim>\<open>ovn_datapath_update_external_ids\<close>: the only column it writes is \<^verbatim>\<open>external_ids\<close>.
\<close>

definition datapath_ids :: "string \<Rightarrow> string \<Rightarrow> string \<Rightarrow> string option \<Rightarrow> (string \<times> string) list" where
  "datapath_ids key uuid_s name name2 =
     [(key, uuid_s), (''name'', name)] @
     (case name2 of
        None \<Rightarrow> []
      | Some n2 \<Rightarrow> if n2 \<noteq> [] then [(''name2'', n2)] else [])"

definition ovn_datapath_update_external_ids ::
  "ovn_datapath \<Rightarrow> sbrec_datapath_binding sb_table \<Rightarrow> error + sbrec_datapath_binding sb_table" where
  "ovn_datapath_update_external_ids od t =
     (case (case od_nbs od of
              Some nbs \<Rightarrow>
                Inr (datapath_ids ''logical-switch'' (od_key od) (nb_name nbs)
                       (smap_get (nb_external_ids nbs) ''neutron:network_name''))
            | None \<Rightarrow>
                (case od_nbr od of
                   None \<Rightarrow> Inl NullDeref
                 | Some nbr \<Rightarrow>
                     Inr (datapath_ids ''logical-router'' (od_key od) (nb_name nbr)
                            (smap_get (nb_external_ids nbr) ''neutron:router_name'')))) of
        Inl e \<Rightarrow> Inl e
      | Inr ids \<Rightarrow>
          (case od_sb od of
             None \<Rightarrow> Inl NullDeref
           | Some r \<Rightarrow> sbrec_update r (\<lambda>row. row\<lparr>dp_external_ids := ids\<rparr>) t))"

text \<open>
  The branch of \<^verbatim>\<open>join_datapaths\<close> for a northbound row whose datapath is already known from
  the southbound database: the datapath moves to \<^verbatim>\<open>both\<close> and its external ids are
  refreshed.  \<open>join_both\<close> is that write for every datapath of the \<^verbatim>\<open>both\<close> list.
\<close>

fun join_both ::
  "ovn_datapath list \<Rightarrow> sbrec_datapath_binding sb_table \<Rightarrow> error + sbrec_datapath_binding sb_table" where
  "join_both [] t = Inr t"
| "join_both (od # ods) t =
     (case ovn_datapath_update_external_ids od t of
        Inl e \<Rightarrow> Inl e
      | Inr t' \<Rightarrow> join_both ods t')"

text \<open>
  \<^verbatim>\<open>build_datapaths\<close> after the join.  \<open>index_dp_tnlids\<close> is the loop over \<^verbatim>\<open>both\<close> that records
  the keys in use (the \<^verbatim>\<open>int64_t\<close> column converted to \<^verbatim>\<open>uint32_t\<close>); \<open>add_datapaths\<close> is the
  loop over \<^verbatim>\<open>nb_only\<close>, which stops at the first datapath for which no key is left and
  returns the datapaths with their new \<^verbatim>\<open>sb\<close> pointers.  The hint of
  \<^verbatim>\<open>ovn_datapath_allocate_key\<close> is a \<^verbatim>\<open>static\<close> variable and is passed through.
\<close>

fun index_dp_tnlids ::
  "sbrec_datapath_binding sb_table \<Rightarrow> ovn_datapath list \<Rightarrow> u32 set \<Rightarrow> error + u32 set" where
  "index_dp_tnlids t [] dp_tnlids = Inr dp_tnlids"
| "index_dp_tnlids t (od # ods) dp_tnlids =
     (case od_sb od of
        None \<Rightarrow> Inl NullDeref
      | Some r \<Rightarrow>
          (case sb_rows t r of
             None \<Rightarrow> Inl NullDeref
           | Some row \<Rightarrow>
               index_dp_tnlids t ods (add_tnlid dp_tnlids (word_of_int (dp_tunnel_key row)))))"

definition ovn_datapath_allocate_key :: "u32 set \<Rightarrow> u32 \<Rightarrow> (u32 \<times> u32 set \<times> u32) option" where
  "ovn_datapath_allocate_key dp_tnlids hint = allocate_tnlid dp_tnlids 1 (2 ^ 24 - 1) hint"

fun add_datapaths ::
  "ovn_datapath list \<Rightarrow> sbrec_datapath_binding sb_table \<Rightarrow> u32 set \<Rightarrow> u32 \<Rightarrow>
   (error + sbrec_datapath_binding sb_table \<times> u32 \<times> ovn_datapath list) option" where
  "add_datapaths [] t dp_tnlids hint = Some (Inr (t, hint, []))"
| "add_datapaths (od # ods) t dp_tnlids hint =
     (case ovn_datapath_allocate_key dp_tnlids hint of
        None \<Rightarrow> None
      | Some (tunnel_key, dp_tnlids', hint') \<Rightarrow>
          if tunnel_key = 0 then Some (Inr (t, hint', od # ods))
          else
            (case sbrec_insert \<lparr>dp_tunnel_key = 0, dp_external_ids = []\<rparr> t of
               (r, t1) \<Rightarrow>
                 (case ovn_datapath_update_external_ids (od\<lparr>od_sb := Some r\<rparr>) t1 of
                    Inl e \<Rightarrow> Some (Inl e)
                  | Inr t2 \<Rightarrow>
                      (case sbrec_update r (\<lambda>row. row\<lparr>dp_tunnel_key := uint tunnel_key\<rparr>) t2 of
                         Inl e \<Rightarrow> Some (Inl e)
                       | Inr t3 \<Rightarrow>
                           (case add_datapaths ods t3 dp_tnlids' hint' of
                              None \<Rightarrow> None
                            | Some (Inl e) \<Rightarrow> Some (Inl e)
                            | Some (Inr (t4, hint4, ods')) \<Rightarrow>
                                Some (Inr (t4, hint4, od\<lparr>od_sb := Some r\<rparr> # ods')))))))"

definition build_datapaths ::
  "sbrec_datapath_binding sb_table \<Rightarrow> u32 \<Rightarrow> ovn_datapath list \<Rightarrow> ovn_datapath list \<Rightarrow>
   ovn_datapath list \<Rightarrow> (error + sbrec_datapath_binding sb_table \<times> u32 \<times> ovn_datapath list) option" where
  "build_datapaths t hint sb_only nb_only both =
     (case join_both both t of
        Inl e \<Rightarrow> Some (Inl e)
      | Inr t0 \<Rightarrow>
          (case (if nb_only \<noteq> [] then
                   (case index_dp_tnlids t0 both {} of
                      Inl e \<Rightarrow> Some (Inl e)
                    | Inr dp_tnlids \<Rightarrow> add_datapaths nb_only t0 dp_tnlids hint)
                 else Some (Inr (t0, hint, nb_only))) of
             None \<Rightarrow> None
           | Some (Inl e) \<Rightarrow> Some (Inl e)
           | Some (Inr (t1, hint1, nb_only')) \<Rightarrow>
               (case delete_sb_only (map od_sb sb_only) t1 of
                  Inl e \<Rightarrow> Some (Inl e)
                | Inr t2 \<Rightarrow> Some (Inr (t2, hint1, nb_only')))))"

text \<open>
  Port_Binding rows: \<^verbatim>\<open>tunnel_key\<close>, \<^verbatim>\<open>logical_port\<close>, and every other column as one list of
  named values.  \<^verbatim>\<open>struct ovn_port\<close> with its \<^verbatim>\<open>sb\<close> pointer, and the part of
  \<^verbatim>\<open>struct ovn_datapath\<close> that allocates port keys.
\<close>

record sbrec_port_binding =
  pb_tunnel_key :: int
  pb_logical_port :: string
  pb_columns :: "(string \<times> string) list"

record ovn_port_sb = ovn_port +
  op_sb :: "nat option"

record port_keys =
  port_tnlids :: "u32 set"
  port_key_hint :: u32

text \<open>
  \<^verbatim>\<open>ovn_port_update_sbrec\<close> sets the columns \<^verbatim>\<open>datapath\<close>, \<^verbatim>\<open>type\<close>, \<^verbatim>\<open>options\<close>, \<^verbatim>\<open>chassis\<close>,
  \<^verbatim>\<open>parent_port\<close>, \<^verbatim>\<open>tag\<close>, \<^verbatim>\<open>mac\<close>, \<^verbatim>\<open>nat_addresses\<close>, \<^verbatim>\<open>external_ids\<close> and the like from the
  northbound row; it calls neither \<^verbatim>\<open>sbrec_port_binding_set_tunnel_key\<close> nor
  \<^verbatim>\<open>sbrec_port_binding_set_logical_port\<close>.  Its effect on the other columns is the parameter
  \<open>cols\<close>.
\<close>

definition ovn_port_update_sbrec ::
  "(ovn_port_sb \<Rightarrow> (string \<times> string) list \<Rightarrow> (string \<times> string) list) \<Rightarrow> ovn_port_sb \<Rightarrow>
   sbrec_port_binding sb_table \<Rightarrow> error + sbrec_port_binding sb_table" where
  "ovn_port_update_sbrec cols op t =
     (case op_sb op of
        None \<Rightarrow> Inl NullDeref
      | Some r \<Rightarrow> sbrec_update r (\<lambda>row. row\<lparr>pb_columns := cols op (pb_columns row)\<rparr>) t)"

definition ovn_port_allocate_key :: "port_keys \<Rightarrow> (u32 \<times> port_keys) option" where
  "ovn_port_allocate_key od =
     (case allocate_tnlid (port_tnlids od) 1 (2 ^ 15 - 1) (port_key_hint od) of
        None \<Rightarrow> None
      | Some (tnlid, tnlids', hint') \<Rightarrow>
          Some (tnlid, od\<lparr>port_tnlids := tnlids', port_key_hint := hint'\<rparr>))"

text \<open>
  The first loop of \<^verbatim>\<open>build_ports\<close>, over \<^verbatim>\<open>both\<close>: refresh the row, record its key as in use in
  the port's datapath and raise the datapath's hint to it.  The tag allocation of that loop
  writes the northbound database only.  \<open>ods\<close> maps a datapath pointer to its key
  allocation state.
\<close>

fun update_both_ports ::
  "(ovn_port_sb \<Rightarrow> (string \<times> string) list \<Rightarrow> (string \<times> string) list) \<Rightarrow> ovn_port_sb list \<Rightarrow>
   sbrec_port_binding sb_table \<Rightarrow> (nat \<Rightarrow> port_keys) \<Rightarrow>
   error + sbrec_port_binding sb_table \<times> (nat \<Rightarrow> port_keys)" where
  "update_both_ports cols [] t ods = Inr (t, ods)"
| "update_both_ports cols (op # ops) t ods =
     (case ovn_port_update_sbrec cols op t of
        Inl e \<Rightarrow> Inl e
      | Inr t1 \<Rightarrow>
          (case op_od op of
             None \<Rightarrow> Inl NullDeref
           | Some d \<Rightarrow>
               (case op_sb op of
                  None \<Rightarrow> Inl NullDeref
                | Some r \<Rightarrow>
                    (case sb_rows t1 r of
                       None \<Rightarrow> Inl NullDeref
                     | Some row \<Rightarrow>
                         let od = (ods d)\<lparr>port_tnlids :=
                                    add_tnlid (port_tnlids (ods d)) (word_of_int (pb_tunnel_key row))\<rparr>;
                             od' = (if pb_tunnel_key row > uint (port_key_hint od)
                                    then od\<lparr>port_key_hint := word_of_int (pb_tunnel_key row)\<rparr>
                                    else od)
                         in update_both_ports cols ops t1 (ods(d := od'))))))"

text \<open>
  The second loop, over \<^verbatim>\<open>nb_only\<close>: allocate a key (\<^verbatim>\<open>uint16_t tunnel_key\<close>), skip the port when
  none is left, otherwise insert a row, fill it and set its \<^verbatim>\<open>logical_port\<close> and
  \<^verbatim>\<open>tunnel_key\<close>.
\<close>

fun add_ports ::
  "(ovn_port_sb \<Rightarrow> (string \<times> string) list \<Rightarrow> (string \<times> string) list) \<Rightarrow> ovn_port_sb list \<Rightarrow>
   sbrec_port_binding sb_table \<Rightarrow> (nat \<Rightarrow> port_keys) \<Rightarrow>
   (error + sbrec_port_binding sb_table \<times> (nat \<Rightarrow> port_keys) \<times> ovn_port_sb list) option" where
  "add_ports cols [] t ods = Some (Inr (t, ods, []))"
| "add_ports cols (op # ops) t ods =
     (case op_od op of
        None \<Rightarrow> Some (Inl NullDeref)
      | Some d \<Rightarrow>
          (case ovn_port_allocate_key (ods d) of
             None \<Rightarrow> None
           | Some (tnlid, od') \<Rightarrow>
               let tunnel_key = (ucast tnlid :: 16 word) in
               if tunnel_key = 0 then
                 (case add_ports cols ops t (ods(d := od')) of
                    None \<Rightarrow> None
                  | Some (Inl e) \<Rightarrow> Some (Inl e)
                  | Some (Inr (t', ods', ops')) \<Rightarrow> Some (Inr (t', ods', op # ops')))
               else
                 (case sbrec_insert \<lparr>pb_tunnel_key = 0, pb_logical_port = [], pb_columns = []\<rparr> t of
                    (r, t1) \<Rightarrow>
                      (case ovn_port_update_sbrec cols (op\<lparr>op_sb := Some r\<rparr>) t1 of
                         Inl e \<Rightarrow> Some (Inl e)
                       | Inr t2 \<Rightarrow>
                           (case sbrec_update r (\<lambda>row. row\<lparr>pb_logical_port := op_key op\<rparr>) t2 of
                              Inl e \<Rightarrow> Some (Inl e)
                            | Inr t3 \<Rightarrow>
                                (case sbrec_update r (\<lambda>row. row\<lparr>pb_tunnel_key := uint tunnel_key\<rparr>) t3 of
                                   Inl e \<Rightarrow> Some (Inl e)
                                 | Inr t4 \<Rightarrow>
                                     (case add_ports cols ops t4 (ods(d := od')) of
                                        None \<Rightarrow> None
                                      | Some (Inl e) \<Rightarrow> Some (Inl e)
                                      | Some (Inr (t', ods', ops')) \<Rightarrow>
                                          Some (Inr (t', ods', op\<lparr>op_sb := Some r\<rparr> # ops')))))))))"

text \<open>
  \<^verbatim>\<open>build_ports\<close> after the join: the two loops and the deletion of the \<^verbatim>\<open>sb_only\<close> rows.  The
  cleanup of MAC bindings, tags, queues and HA chassis groups that follows writes no
  Port_Binding row.
\<close>

definition build_ports ::
  "(ovn_port_sb \<Rightarrow> (string \<times> string) list \<Rightarrow> (string \<times> string) list) \<Rightarrow>
   sbrec_port_binding sb_table \<Rightarrow> (nat \<Rightarrow> port_keys) \<Rightarrow> ovn_port_sb list \<Rightarrow> ovn_port_sb list \<Rightarrow>
   ovn_port_sb list \<Rightarrow>
   (error + sbrec_port_binding sb_table \<times> (nat \<Rightarrow> port_keys) \<times> ovn_port_sb list) option" where
  "build_ports cols t ods sb_only nb_only both =
     (case update_both_ports cols both t ods of
        Inl e \<Rightarrow> Some (Inl e)
      | Inr (t0, ods0) \<Rightarrow>
          (case add_ports cols nb_only t0 ods0 of
             None \<Rightarrow> None
           | Some (Inl e) \<Rightarrow> Some (Inl e)
           | Some (Inr (t1, ods1, nb_only')) \<Rightarrow>
               (case delete_sb_only (map op_sb sb_only) t1 of
                  Inl e \<Rightarrow> Some (Inl e)
                | Inr t2 \<Rightarrow> Some (Inr (t2, ods1, nb_only')))))"

text \<open>
  The tunnel keys of the first \<open>n\<close> row pointers are the same in \<open>t'\<close> as in \<open>t\<close>, for a key
  column \<open>key\<close>.
\<close>

definition keys_kept :: "('r \<Rightarrow> int) \<Rightarrow> nat \<Rightarrow> 'r sb_table \<Rightarrow> 'r sb_table \<Rightarrow> bool" where
  "keys_kept key n t t' =
     (sb_fresh t \<le> sb_fresh t' \<and>
      (\<forall>r < n. map_option key (sb_rows t' r) = map_option key (sb_rows t r)))"

text \<open>
  A small pass: one datapath and one port known to both databases (row 0 of each table),
  one southbound-only row each (row 1) and one northbound-only datapath and port.
\<close>

definition kept_datapath :: ovn_datapath where
  "kept_datapath = \<lparr>od_key = ''sw-kept'', od_nbs = Some \<lparr>nb_name = ''kept'', nb_external_ids = []\<rparr>,
     od_nbr = None, od_sb = Some 0\<rparr>"

definition gone_datapath :: ovn_datapath where
  "gone_datapath = \<lparr>od_key = ''sw-gone'', od_nbs = None, od_nbr = None, od_sb = Some 1\<rparr>"

definition new_datapath :: ovn_datapath where
  "new_datapath = \<lparr>od_key = ''lr-new'', od_nbs = None,
     od_nbr = Some \<lparr>nb_name = ''new'', nb_external_ids = []\<rparr>, od_sb = None\<rparr>"

definition datapath_table :: "sbrec_datapath_binding sb_table" where
  "datapath_table =
     \<lparr>sb_rows = [0 \<mapsto> \<lparr>dp_tunnel_key = 5, dp_external_ids = [(''logical-switch'', ''sw-kept'')]\<rparr>,
                 1 \<mapsto> \<lparr>dp_tunnel_key = 6, dp_external_ids = [(''logical-switch'', ''sw-gone'')]\<rparr>],
      sb_fresh = 2\<rparr>"

definition datapath_table' :: "sbrec_datapath_binding sb_table" where
  "datapath_table' =
     \<lparr>sb_rows = [0 \<mapsto> \<lparr>dp_tunnel_key = 5,
                        dp_external_ids = [(''logical-switch'', ''sw-kept''), (''name'', ''kept'')]\<rparr>,
                 2 \<mapsto> \<lparr>dp_tunnel_key = 1,
                        dp_external_ids = [(''logical-router'', ''lr-new''), (''name'', ''new'')]\<rparr>],
      sb_fresh = 3\<rparr>"

definition datapath_table0 :: "sbrec_datapath_binding sb_table" where
  "datapath_table0 =
     \<lparr>sb_rows = [0 \<mapsto> \<lparr>dp_tunnel_key = 5,
                        dp_external_ids = [(''logical-switch'', ''sw-kept''), (''name'', ''kept'')]\<rparr>,
                 1 \<mapsto> \<lparr>dp_tunnel_key = 6, dp_external_ids = [(''logical-switch'', ''sw-gone'')]\<rparr>],
      sb_fresh = 2\<rparr>"

definition kept_port :: ovn_port_sb where
  "kept_port = \<lparr>op_key = ''p-kept'', op_nbsp = None, op_nbrp = Some \<lparr>lrp_peer = None\<rparr>,
     op_mcast_flood = False, op_derived = False, op_peer = None, op_od = Some 0, op_sb = Some 0\<rparr>"

definition gone_port :: ovn_port_sb where
  "gone_port = \<lparr>op_key = ''p-gone'', op_nbsp = None, op_nbrp = None,
     op_mcast_flood = False, op_derived = False, op_peer = None, op_od = None, op_sb = Some 1\<rparr>"

definition new_port :: ovn_port_sb where
  "new_port = \<lparr>op_key = ''p-new'', op_nbsp = None, op_nbrp = Some \<lparr>lrp_peer = None\<rparr>,
     op_mcast_flood = False, op_derived = False, op_peer = None, op_od = Some 0, op_sb = None\<rparr>"

definition port_columns :: "ovn_port_sb \<Rightarrow> (string \<times> string) list \<Rightarrow> (string \<times> string) list" where
  "port_columns op cs = [(''type'', ''patch'')]"

definition port_table :: "sbrec_port_binding sb_table" where
  "port_table =
     \<lparr>sb_rows = [0 \<mapsto> \<lparr>pb_tunnel_key = 3, pb_logical_port = ''p-kept'', pb_columns = []\<rparr>,
                 1 \<mapsto> \<lparr>pb_tunnel_key = 7, pb_logical_port = ''p-gone'', pb_columns = []\<rparr>],
      sb_fresh = 2\<rparr>"

definition port_table' :: "sbrec_port_binding sb_table" where
  "port_table' =
     \<lparr>sb_rows = [0 \<mapsto> \<lparr>pb_tunnel_key = 3, pb_logical_port = ''p-kept'',
                        pb_columns = [(''type'', ''patch'')]\<rparr>,
                 2 \<mapsto> \<lparr>pb_tunnel_key = 4, pb_logical_port = ''p-new'',
                        pb_columns = [(''type'', ''patch'')]\<rparr>],
      sb_fresh = 3\<rparr>"

definition port_key_state :: "nat \<Rightarrow> port_keys" where
  "port_key_state = (\<lambda>d. \<lparr>port_tnlids = {}, port_key_hint = 0\<rparr>)"

definition port_key_state' :: "nat \<Rightarrow> port_keys" where
  "port_key_state' = port_key_state(0 := \<lparr>port_tnlids = {3, 4}, port_key_hint = 4\<rparr>)"

section \<open>Logical flows\<close>

text \<open>
  \<^verbatim>\<open>enum ovn_stage\<close> packs a datapath type, a pipeline and a table number as
  \<^verbatim>\<open>(DP_TYPE << 9) | (PIPELINE << 8) | TABLE\<close>; a stage is kept here as these three
  components, so that \<^verbatim>\<open>ovn_stage_build\<close> assembles them and the accessors project them.
\<close>

datatype ovn_pipeline = P_IN | P_OUT

datatype ovn_datapath_type = DP_SWITCH | DP_ROUTER

record ovn_stage =
  stage_dp_type :: ovn_datapath_type
  stage_pipeline :: ovn_pipeline
  stage_table :: "8 word"

definition ovn_stage_build :: "ovn_datapath_type \<Rightarrow> ovn_pipeline \<Rightarrow> 8 word \<Rightarrow> ovn_stage" where
  "ovn_stage_build dp_type pipeline table =
     \<lparr>stage_dp_type = dp_type, stage_pipeline = pipeline, stage_table = table\<rparr>"

definition ovn_stage_get_pipeline :: "ovn_stage \<Rightarrow> ovn_pipeline" where
  "ovn_stage_get_pipeline stage = stage_pipeline stage"

definition ovn_stage_get_pipeline_name :: "ovn_stage \<Rightarrow> string" where
  "ovn_stage_get_pipeline_name stage =
     (if ovn_stage_get_pipeline stage = P_IN then ''ingress'' else ''egress'')"

definition ovn_stage_get_table :: "ovn_stage \<Rightarrow> 8 word" where
  "ovn_stage_get_table stage = stage_table stage"

text \<open>The stages of \<^verbatim>\<open>PIPELINE_STAGES\<close>, by datapath type and pipeline, in table order.\<close>

definition pipeline_stages :: "ovn_datapath_type \<Rightarrow> ovn_pipeline \<Rightarrow> string list" where
  "pipeline_stages dp_type pipeline =
     (case (dp_type, pipeline) of
        (DP_SWITCH, P_IN) \<Rightarrow>
          [''ls_in_port_sec_l2'', ''ls_in_port_sec_ip'', ''ls_in_port_sec_nd'', ''ls_in_pre_acl'',
           ''ls_in_pre_lb'', ''ls_in_pre_stateful'', ''ls_in_acl'', ''ls_in_qos_mark'',
           ''ls_in_qos_meter'', ''ls_in_lb'', ''ls_in_stateful'', ''ls_in_arp_rsp'',
           ''ls_in_dhcp_options'', ''ls_in_dhcp_response'', ''ls_in_dns_lookup'',
           ''ls_in_dns_response'', ''ls_in_external_port'', ''ls_in_l2_lkup'']
      | (DP_SWITCH, P_OUT) \<Rightarrow>
          [''ls_out_pre_lb'', ''ls_out_pre_acl'', ''ls_out_pre_stateful'', ''ls_out_lb'',
           ''ls_out_acl'', ''ls_out_qos_mark'', ''ls_out_qos_meter'', ''ls_out_stateful'',
           ''ls_out_port_sec_ip'', ''ls_out_port_sec_l2'']
      | (DP_ROUTER, P_IN) \<Rightarrow>
          [''lr_in_admission'', ''lr_in_lookup_neighbor'', ''lr_in_learn_neighbor'',
           ''lr_in_ip_input'', ''lr_in_defrag'', ''lr_in_unsnat'', ''lr_in_dnat'',
           ''lr_in_nd_ra_options'', ''lr_in_nd_ra_response'', ''lr_in_ip_routing'',
           ''lr_in_policy'', ''lr_in_arp_resolve'', ''lr_in_chk_pkt_len'', ''lr_in_larger_pkts'',
           ''lr_in_gw_redirect'', ''lr_in_arp_request'']
      | (DP_ROUTER, P_OUT) \<Rightarrow>
          [''lr_out_undnat'', ''lr_out_snat'', ''lr_out_egr_loop'', ''lr_out_delivery''])"

definition stage_known :: "ovn_stage \<Rightarrow> bool" where
  "stage_known stage =
     (unat (stage_table stage) < length (pipeline_stages (stage_dp_type stage) (stage_pipeline stage)))"

definition ovn_stage_to_str :: "ovn_stage \<Rightarrow> string" where
  "ovn_stage_to_str stage =
     (if stage_known stage
      then pipeline_stages (stage_dp_type stage) (stage_pipeline stage) ! unat (stage_table stage)
      else ''<unknown>'')"

text \<open>\<^verbatim>\<open>ovn_stage_to_datapath_type\<close>: the \<^verbatim>\<open>default\<close> case is \<^verbatim>\<open>OVS_NOT_REACHED()\<close>.\<close>

definition ovn_stage_to_datapath_type :: "ovn_stage \<Rightarrow> error + ovn_datapath_type" where
  "ovn_stage_to_datapath_type stage =
     (if stage_known stage then Inr (stage_dp_type stage) else Inl NotReached)"

definition ovn_datapath_get_type :: "ovn_datapath \<Rightarrow> ovn_datapath_type" where
  "ovn_datapath_get_type od = (if od_nbs od \<noteq> None then DP_SWITCH else DP_ROUTER)"

text \<open>
  \<^verbatim>\<open>struct ovn_lflow\<close>; \<open>lf_od\<close> points into the table of datapaths.  The flow table
  (\<^verbatim>\<open>struct hmap\<close>) is the list of its nodes, each with the hash it was inserted under, the
  most recently inserted node first.
\<close>

record ovn_lflow =
  lf_od :: nat
  lf_stage :: ovn_stage
  lf_priority :: "16 word"
  lf_match :: string
  lf_actions :: string
  lf_stage_hint :: "string option"
  lf_where :: string

text \<open>
  \<^verbatim>\<open>ovn_logical_flow_hash\<close> is library code; it is the parameter \<open>flow_hash\<close>, applied to the
  datapath's southbound row (for its UUID), the table, the pipeline name, the priority, the
  match and the actions.
\<close>

definition ovn_lflow_hash ::
  "(nat \<Rightarrow> 8 word \<Rightarrow> string \<Rightarrow> 16 word \<Rightarrow> string \<Rightarrow> string \<Rightarrow> nat) \<Rightarrow> ovn_datapath list \<Rightarrow>
   ovn_lflow \<Rightarrow> error + nat" where
  "ovn_lflow_hash flow_hash datapaths lflow =
     (case deref datapaths (lf_od lflow) of
        Inl e \<Rightarrow> Inl e
      | Inr od \<Rightarrow>
          (case od_sb od of
             None \<Rightarrow> Inl NullDeref
           | Some sb \<Rightarrow>
               Inr (flow_hash sb (ovn_stage_get_table (lf_stage lflow))
                      (ovn_stage_get_pipeline_name (lf_stage lflow)) (lf_priority lflow)
                      (lf_match lflow) (lf_actions lflow))))"

definition ovn_lflow_equal :: "ovn_lflow \<Rightarrow> ovn_lflow \<Rightarrow> bool" where
  "ovn_lflow_equal a b =
     (lf_od a = lf_od b \<and> lf_stage a = lf_stage b \<and> lf_priority a = lf_priority b \<and>
      lf_match a = lf_match b \<and> lf_actions a = lf_actions b)"

text \<open>
  \<^verbatim>\<open>ovn_lflow_add_at\<close>: the assertion on the datapath type, then an unconditional
  \<^verbatim>\<open>hmap_insert\<close>.
\<close>

definition ovn_lflow_add_at ::
  "(nat \<Rightarrow> 8 word \<Rightarrow> string \<Rightarrow> 16 word \<Rightarrow> string \<Rightarrow> string \<Rightarrow> nat) \<Rightarrow> ovn_datapath list \<Rightarrow>
   (nat \<times> ovn_lflow) list \<Rightarrow> nat \<Rightarrow> ovn_stage \<Rightarrow> 16 word \<Rightarrow> string \<Rightarrow> string \<Rightarrow> string option \<Rightarrow>
   string \<Rightarrow> error + (nat \<times> ovn_lflow) list" where
  "ovn_lflow_add_at flow_hash datapaths lflow_map od stage priority mtch actions stage_hint wher =
     (case ovn_stage_to_datapath_type stage of
        Inl e \<Rightarrow> Inl e
      | Inr dp_type \<Rightarrow>
          (case deref datapaths od of
             Inl e \<Rightarrow> Inl e
           | Inr odr \<Rightarrow>
               if dp_type \<noteq> ovn_datapath_get_type odr then Inl AssertionFailed
               else
                 let lflow = \<lparr>lf_od = od, lf_stage = stage, lf_priority = priority,
                               lf_match = mtch, lf_actions = actions, lf_stage_hint = stage_hint,
                               lf_where = wher\<rparr>
                 in (case ovn_lflow_hash flow_hash datapaths lflow of
                       Inl e \<Rightarrow> Inl e
                     | Inr h \<Rightarrow> Inr ((h, lflow) # lflow_map))))"

text \<open>
  \<^verbatim>\<open>ovn_lflow_find\<close>: the first node stored under \<open>hash\<close> that equals the target, as its
  position in the table; \<^verbatim>\<open>ovn_lflow_destroy\<close> removes the node at a position.
\<close>

definition ovn_lflow_find ::
  "(nat \<times> ovn_lflow) list \<Rightarrow> nat \<Rightarrow> ovn_stage \<Rightarrow> 16 word \<Rightarrow> string \<Rightarrow> string \<Rightarrow> nat \<Rightarrow> nat option" where
  "ovn_lflow_find lflows od stage priority mtch actions hash =
     find (\<lambda>i. fst (lflows ! i) = hash \<and>
                ovn_lflow_equal (snd (lflows ! i))
                  \<lparr>lf_od = od, lf_stage = stage, lf_priority = priority, lf_match = mtch,
                    lf_actions = actions, lf_stage_hint = None, lf_where = []\<rparr>)
          [0..<length lflows]"

definition ovn_lflow_destroy :: "(nat \<times> ovn_lflow) list \<Rightarrow> nat \<Rightarrow> (nat \<times> ovn_lflow) list" where
  "ovn_lflow_destroy lflows i = take i lflows @ drop (Suc i) lflows"

text \<open>
  Logical_Flow rows.  The integer columns are \<^verbatim>\<open>int64_t\<close>; \<open>sf_logical_datapath\<close> points to a
  Datapath_Binding row; \<open>sf_hash\<close> is the \<^verbatim>\<open>hash\<close> member that the IDL keeps for the row.
\<close>

record sbrec_logical_flow =
  sf_logical_datapath :: "nat option"
  sf_pipeline :: string
  sf_table_id :: int
  sf_priority :: int
  sf_match :: string
  sf_actions :: string
  sf_external_ids :: "(string \<times> string) list"
  sf_hash :: nat

text \<open>
  \<^verbatim>\<open>ovn_datapath_find\<close> and \<^verbatim>\<open>ovn_datapath_from_sbrec\<close>.  \<^verbatim>\<open>smap_get_uuid\<close> is library code and is
  the parameter \<open>get_uuid\<close>.
\<close>

definition ovn_datapath_find :: "ovn_datapath list \<Rightarrow> string \<Rightarrow> nat option" where
  "ovn_datapath_find datapaths uuid =
     find (\<lambda>i. od_key (datapaths ! i) = uuid) [0..<length datapaths]"

definition ovn_datapath_from_sbrec ::
  "((string \<times> string) list \<Rightarrow> string \<Rightarrow> string option) \<Rightarrow> ovn_datapath list \<Rightarrow>
   sbrec_datapath_binding \<Rightarrow> nat option" where
  "ovn_datapath_from_sbrec get_uuid datapaths sb =
     (case get_uuid (dp_external_ids sb) ''logical-switch'' of
        Some key \<Rightarrow> ovn_datapath_find datapaths key
      | None \<Rightarrow>
          (case get_uuid (dp_external_ids sb) ''logical-router'' of
             Some key \<Rightarrow> ovn_datapath_find datapaths key
           | None \<Rightarrow> None))"

text \<open>
  The first loop of the reconciliation in \<^verbatim>\<open>build_lflows\<close>, over the southbound rows: a row
  whose datapath is unknown or that matches no flow of the table is deleted; a row that
  matches a flow is kept and the flow is removed from the table.  The result is the rows
  kept and the flows left.
\<close>

fun sync_sb_flows ::
  "((string \<times> string) list \<Rightarrow> string \<Rightarrow> string option) \<Rightarrow> sbrec_datapath_binding sb_table \<Rightarrow>
   ovn_datapath list \<Rightarrow> sbrec_logical_flow list \<Rightarrow> (nat \<times> ovn_lflow) list \<Rightarrow>
   error + sbrec_logical_flow list \<times> (nat \<times> ovn_lflow) list" where
  "sync_sb_flows get_uuid dp_table datapaths [] lflows = Inr ([], lflows)"
| "sync_sb_flows get_uuid dp_table datapaths (sbflow # sbflows) lflows =
     (case sf_logical_datapath sbflow of
        None \<Rightarrow> Inl NullDeref
      | Some p \<Rightarrow>
          (case sb_rows dp_table p of
             None \<Rightarrow> Inl NullDeref
           | Some sb \<Rightarrow>
               (case ovn_datapath_from_sbrec get_uuid datapaths sb of
                  None \<Rightarrow> sync_sb_flows get_uuid dp_table datapaths sbflows lflows
                | Some od \<Rightarrow>
                    (case deref datapaths od of
                       Inl e \<Rightarrow> Inl e
                     | Inr odr \<Rightarrow>
                         let dp_type = (if od_nbs odr \<noteq> None then DP_SWITCH else DP_ROUTER);
                             pipeline = (if sf_pipeline sbflow = ''ingress'' then P_IN else P_OUT)
                         in (case ovn_lflow_find lflows od
                                    (ovn_stage_build dp_type pipeline (word_of_int (sf_table_id sbflow)))
                                    (word_of_int (sf_priority sbflow)) (sf_match sbflow)
                                    (sf_actions sbflow) (sf_hash sbflow) of
                               Some i \<Rightarrow>
                                 (case sync_sb_flows get_uuid dp_table datapaths sbflows
                                         (ovn_lflow_destroy lflows i) of
                                    Inl e \<Rightarrow> Inl e
                                  | Inr (kept, lflows') \<Rightarrow> Inr (sbflow # kept, lflows'))
                             | None \<Rightarrow> sync_sb_flows get_uuid dp_table datapaths sbflows lflows)))))"

text \<open>
  The second loop: every flow left in the table becomes a new row.  \<open>trim_where\<close> is the part
  of the source locator after its last slash.
\<close>

definition trim_where :: "string \<Rightarrow> string" where
  "trim_where w = rev (takeWhile (\<lambda>c. c \<noteq> CHR ''/'') (rev w))"

definition lflow_row :: "ovn_datapath list \<Rightarrow> ovn_lflow \<Rightarrow> error + sbrec_logical_flow" where
  "lflow_row datapaths lflow =
     (case deref datapaths (lf_od lflow) of
        Inl e \<Rightarrow> Inl e
      | Inr od \<Rightarrow>
          Inr \<lparr>sf_logical_datapath = od_sb od,
               sf_pipeline = ovn_stage_get_pipeline_name (lf_stage lflow),
               sf_table_id = uint (ovn_stage_get_table (lf_stage lflow)),
               sf_priority = uint (lf_priority lflow),
               sf_match = lf_match lflow,
               sf_actions = lf_actions lflow,
               sf_external_ids =
                 [(''stage-name'', ovn_stage_to_str (lf_stage lflow)),
                  (''source'', trim_where (lf_where lflow))] @
                 (case lf_stage_hint lflow of None \<Rightarrow> [] | Some h \<Rightarrow> [(''stage-hint'', h)]),
               sf_hash = 0\<rparr>)"

fun insert_lflows :: "ovn_datapath list \<Rightarrow> (nat \<times> ovn_lflow) list \<Rightarrow> error + sbrec_logical_flow list" where
  "insert_lflows datapaths [] = Inr []"
| "insert_lflows datapaths ((h, lflow) # lflows) =
     (case lflow_row datapaths lflow of
        Inl e \<Rightarrow> Inl e
      | Inr row \<Rightarrow>
          (case insert_lflows datapaths lflows of
             Inl e \<Rightarrow> Inl e
           | Inr rows \<Rightarrow> Inr (row # rows)))"

text \<open>
  The Logical_Flow table after the reconciliation: the rows kept, then the rows inserted.
\<close>

definition push_lflows ::
  "((string \<times> string) list \<Rightarrow> string \<Rightarrow> string option) \<Rightarrow> sbrec_datapath_binding sb_table \<Rightarrow>
   ovn_datapath list \<Rightarrow> sbrec_logical_flow list \<Rightarrow> (nat \<times> ovn_lflow) list \<Rightarrow>
   error + sbrec_logical_flow list" where
  "push_lflows get_uuid dp_table datapaths sbflows lflows =
     (case sync_sb_flows get_uuid dp_table datapaths sbflows lflows of
        Inl e \<Rightarrow> Inl e
      | Inr (kept, lflows') \<Rightarrow>
          (case insert_lflows datapaths lflows' of
             Inl e \<Rightarrow> Inl e
           | Inr rows \<Rightarrow> Inr (kept @ rows)))"

text \<open>
  The identity of a row and of a flow: datapath, pipeline, table, priority, match and
  actions.
\<close>

definition row_identity :: "sbrec_logical_flow \<Rightarrow> nat option \<times> string \<times> int \<times> int \<times> string \<times> string" where
  "row_identity r =
     (sf_logical_datapath r, sf_pipeline r, sf_table_id r, sf_priority r, sf_match r, sf_actions r)"

definition lflow_identity ::
  "ovn_datapath list \<Rightarrow> ovn_lflow \<Rightarrow> nat option \<times> string \<times> int \<times> int \<times> string \<times> string" where
  "lflow_identity datapaths lflow =
     (od_sb (datapaths ! lf_od lflow), ovn_stage_get_pipeline_name (lf_stage lflow),
      uint (ovn_stage_get_table (lf_stage lflow)), uint (lf_priority lflow), lf_match lflow,
      lf_actions lflow)"

text \<open>
  A southbound row conforms when its columns are within the ranges of the schema and the
  datapath found for its Datapath_Binding row points back to that row.
\<close>

definition sbflow_conforms ::
  "((string \<times> string) list \<Rightarrow> string \<Rightarrow> string option) \<Rightarrow> sbrec_datapath_binding sb_table \<Rightarrow>
   ovn_datapath list \<Rightarrow> sbrec_logical_flow \<Rightarrow> bool" where
  "sbflow_conforms get_uuid dp_table datapaths sbflow =
     ((sf_pipeline sbflow = ''ingress'' \<or> sf_pipeline sbflow = ''egress'') \<and>
      0 \<le> sf_table_id sbflow \<and> sf_table_id sbflow < 256 \<and>
      0 \<le> sf_priority sbflow \<and> sf_priority sbflow < 65536 \<and>
      (\<forall>p sb od. sf_logical_datapath sbflow = Some p \<longrightarrow> sb_rows dp_table p = Some sb \<longrightarrow>
         ovn_datapath_from_sbrec get_uuid datapaths sb = Some od \<longrightarrow>
         od_sb (datapaths ! od) = Some p))"

text \<open>The stages of the ACL tables of a logical switch.\<close>

definition S_SWITCH_IN_ACL :: ovn_stage where
  "S_SWITCH_IN_ACL = ovn_stage_build DP_SWITCH P_IN 6"


text \<open>
  One logical switch whose Datapath_Binding row is row 0, a hash that is the priority, a
  flow-table node for one ACL flow, the row that the reconciliation inserts for it, and a
  row already stored for it.
\<close>

definition flow_datapaths :: "ovn_datapath list" where
  "flow_datapaths =
     [\<lparr>od_key = ''sw0'', od_nbs = Some \<lparr>nb_name = ''sw0'', nb_external_ids = []\<rparr>, od_nbr = None,
        od_sb = Some 0\<rparr>]"

definition flow_dp_table :: "sbrec_datapath_binding sb_table" where
  "flow_dp_table =
     \<lparr>sb_rows = [0 \<mapsto> \<lparr>dp_tunnel_key = 1, dp_external_ids = [(''logical-switch'', ''sw0'')]\<rparr>],
      sb_fresh = 1\<rparr>"

definition flow_get_uuid :: "(string \<times> string) list \<Rightarrow> string \<Rightarrow> string option" where
  "flow_get_uuid ids key = smap_get ids key"

definition priority_hash :: "nat \<Rightarrow> 8 word \<Rightarrow> string \<Rightarrow> 16 word \<Rightarrow> string \<Rightarrow> string \<Rightarrow> nat" where
  "priority_hash sb table pipeline priority mtch actions = unat priority"

definition twice_node :: "nat \<times> ovn_lflow" where
  "twice_node =
     (1001, \<lparr>lf_od = 0, lf_stage = S_SWITCH_IN_ACL, lf_priority = 1001, lf_match = ''ip4'',
             lf_actions = ''next;'', lf_stage_hint = None, lf_where = ''northd/ovn-northd.c:4520''\<rparr>)"

definition twice_row :: sbrec_logical_flow where
  "twice_row =
     \<lparr>sf_logical_datapath = Some 0, sf_pipeline = ''ingress'', sf_table_id = 6, sf_priority = 1001,
      sf_match = ''ip4'', sf_actions = ''next;'',
      sf_external_ids = [(''stage-name'', ''ls_in_acl''), (''source'', ''ovn-northd.c:4520'')],
      sf_hash = 0\<rparr>"

definition stored_row :: sbrec_logical_flow where
  "stored_row =
     \<lparr>sf_logical_datapath = Some 0, sf_pipeline = ''ingress'', sf_table_id = 6, sf_priority = 1001,
      sf_match = ''ip4'', sf_actions = ''next;'', sf_external_ids = [], sf_hash = 1001\<rparr>"

section \<open>ACL flows of a logical switch\<close>








text \<open>
  The arguments of one call of \<^verbatim>\<open>ovn_lflow_add_at\<close> for the datapath at hand.  The builders
  only add to the flow table, so the table is kept here as the list of the calls made so
  far, in order; the priority parameter is a \<^verbatim>\<open>uint16_t\<close>.
\<close>

record lflow_args =
  la_stage :: ovn_stage
  la_priority :: "16 word"
  la_match :: string
  la_actions :: string
  la_stage_hint :: "string option"

definition ovn_lflow_add_with_hint ::
  "lflow_args list \<Rightarrow> ovn_stage \<Rightarrow> 16 word \<Rightarrow> string \<Rightarrow> string \<Rightarrow> string option \<Rightarrow> lflow_args list" where
  "ovn_lflow_add_with_hint lflows stage priority mtch actions stage_hint =
     lflows @ [\<lparr>la_stage = stage, la_priority = priority, la_match = mtch, la_actions = actions,
                 la_stage_hint = stage_hint\<rparr>]"

definition ovn_lflow_add ::
  "lflow_args list \<Rightarrow> ovn_stage \<Rightarrow> 16 word \<Rightarrow> string \<Rightarrow> string \<Rightarrow> lflow_args list" where
  "ovn_lflow_add lflows stage priority mtch actions =
     ovn_lflow_add_with_hint lflows stage priority mtch actions None"






















section \<open>Properties of the IPv4 allocator\<close>

lemma length_bitmap_set_multiple [simp]: "length (bitmap_set_multiple bm s n) = length bm"
  by (induction bm s n rule: bitmap_set_multiple.induct) simp_all

lemma nth_set_True: "i < length bm \<Longrightarrow> bm[s := True] ! i = (s = i \<or> bm ! i)"
  by (cases "s = i") auto

lemma nth_bitmap_set_multiple:
  "i < length bm \<Longrightarrow> bitmap_set_multiple bm s n ! i = ((s \<le> i \<and> i < s + n) \<or> bm ! i)"
proof (induction bm s n rule: bitmap_set_multiple.induct)
  case (1 bm start)
  then show ?case by auto
next
  case (2 bm start n)
  then have "bitmap_set_multiple (bm[start := True]) (Suc start) n ! i =
      ((Suc start \<le> i \<and> i < Suc start + n) \<or> bm[start := True] ! i)"
    by simp
  then show ?case using "2.prems" by (auto simp: nth_set_True)
qed

lemma unat_max_word: "unat (max (a::u32) b) = max (unat a) (unat b)"
  by (simp add: max_def word_le_nat_alt)

lemma exclude_range_fields [simp]:
  "start_ipv4 (exclude_range ipam s e) = start_ipv4 ipam"
  "total_ipv4s (exclude_range ipam s e) = total_ipv4s ipam"
  by (simp_all add: exclude_range_def Let_def)

lemma exclude_range_inv: "ipam_inv ipam \<Longrightarrow> ipam_inv (exclude_range ipam s e)"
proof (cases "allocated_ipv4s ipam")
  case None
  then show ?thesis by (simp add: ipam_inv_def exclude_range_def Let_def)
next
  case (Some bm)
  assume inv: "ipam_inv ipam"
  define st where "st = max (start_ipv4 ipam) s"
  define en where "en = min (unat (start_ipv4 ipam) + total_ipv4s ipam) (unat e)"
  have st_ge: "start_ipv4 ipam \<le> st" by (simp add: st_def)
  have ust: "unat (st - start_ipv4 ipam) = unat st - unat (start_ipv4 ipam)"
    using st_ge by (simp add: unat_sub)
  have ust_ge: "unat (start_ipv4 ipam) \<le> unat st"
    using st_ge by (simp add: word_le_nat_alt)
  have e_lt: "unat e < 2 ^ 32" using unsigned_less [of e] by simp
  show ?thesis
  proof (cases "en > unat st")
    case False
    then show ?thesis using inv by (auto simp: exclude_range_def Let_def st_def en_def)
  next
    case True
    have eq: "exclude_range ipam s e =
      ipam\<lparr>allocated_ipv4s := Some (bitmap_set_multiple bm (unat st - unat (start_ipv4 ipam)) (en - unat st))\<rparr>"
      using True Some ust by (simp add: exclude_range_def Let_def st_def en_def)
    from inv Some have len: "length bm = total_ipv4s ipam" and pos: "0 < total_ipv4s ipam"
      and b0: "bm ! 0" and bnd: "\<forall>i < length bm. bm ! i \<longrightarrow> unat (start_ipv4 ipam) + i < 2 ^ 32"
      by (simp_all add: ipam_inv_def)
    have en1: "en \<le> unat (start_ipv4 ipam) + total_ipv4s ipam" and en2: "en \<le> unat e"
      by (simp_all add: en_def)
    show ?thesis
      unfolding eq ipam_inv_def
      using len pos b0 bnd en1 en2 e_lt ust_ge True
      by (auto simp: nth_bitmap_set_multiple)
  qed
qed

lemma exclude_ips_loop_fields [simp]:
  "start_ipv4 (exclude_ips_loop ipam toks) = start_ipv4 ipam"
  "total_ipv4s (exclude_ips_loop ipam toks) = total_ipv4s ipam"
  by (induction ipam toks rule: exclude_ips_loop.induct) simp_all

lemma exclude_ips_loop_inv: "ipam_inv ipam \<Longrightarrow> ipam_inv (exclude_ips_loop ipam toks)"
  by (induction ipam toks rule: exclude_ips_loop.induct) (simp_all add: exclude_range_inv)

lemma unat_not_lt: "(netmask::u32) \<noteq> - 1 \<Longrightarrow> 0 < unat (NOT netmask)"
proof -
  assume ne: "netmask \<noteq> - 1"
  have "NOT netmask \<noteq> 0"
  proof
    assume "NOT netmask = 0"
    then have "NOT (NOT netmask) = NOT 0" by simp
    then show False using ne by simp
  qed
  then show ?thesis by (simp add: unat_gt_0)
qed

lemma init_base_inv:
  "(netmask::u32) \<noteq> - 1 \<Longrightarrow>
   ipam_inv \<lparr>start_ipv4 = subnet + 1, total_ipv4s = unat (NOT netmask),
              allocated_ipv4s = Some (bitmap_set1 (bitmap_allocate (unat (NOT netmask))) 0)\<rparr>"
  using unat_not_lt [of netmask] unsigned_less [of "subnet + 1"]
  by (auto simp: ipam_inv_def bitmap_set1_def bitmap_allocate_def nth_set_True)

lemma init_inv: "ipam_inv (init_ipam_info_for_datapath cfg excl)"
proof (cases cfg)
  case (Subnet subnet netmask)
  show ?thesis
  proof (cases "netmask = - 1 \<or> \<not> ip_is_cidr netmask")
    case True
    then show ?thesis using Subnet
      by (auto simp: init_ipam_info_for_datapath_def ipam_inv_def ipam_zero_def)
  next
    case False
    then show ?thesis using Subnet init_base_inv [of netmask subnet]
      by (cases excl) (auto simp: init_ipam_info_for_datapath_def Let_def intro: exclude_ips_loop_inv)
  qed
qed (simp_all add: init_ipam_info_for_datapath_def ipam_inv_def ipam_zero_def)

lemma ipam_insert_ip_fields [simp]:
  "start_ipv4 (ipam_insert_ip ipam ip) = start_ipv4 ipam"
  "total_ipv4s (ipam_insert_ip ipam ip) = total_ipv4s ipam"
  by (simp_all add: ipam_insert_ip_def split: option.splits)

lemma ipam_insert_ip_inv: "ipam_inv ipam \<Longrightarrow> ipam_inv (ipam_insert_ip ipam ip)"
proof (cases "allocated_ipv4s ipam")
  case None
  then show ?thesis by (simp add: ipam_inv_def ipam_insert_ip_def)
next
  case (Some bm)
  assume inv: "ipam_inv ipam"
  show ?thesis
  proof (cases "ip \<ge> start_ipv4 ipam \<and> unat ip < unat (start_ipv4 ipam) + total_ipv4s ipam")
    case False
    then show ?thesis using inv Some by (auto simp: ipam_insert_ip_def)
  next
    case True
    then have idx: "unat (ip - start_ipv4 ipam) = unat ip - unat (start_ipv4 ipam)"
      and ge: "unat (start_ipv4 ipam) \<le> unat ip"
      by (simp_all add: unat_sub word_le_nat_alt)
    have lt: "unat ip < 2 ^ 32" using unsigned_less [of ip] by simp
    show ?thesis
      using inv Some True idx ge lt
      by (auto simp: ipam_insert_ip_def ipam_inv_def bitmap_set1_def nth_set_True)
  qed
qed

lemma foldl_ipam_insert_ip_fields [simp]:
  "start_ipv4 (foldl ipam_insert_ip ipam ips) = start_ipv4 ipam"
  "total_ipv4s (foldl ipam_insert_ip ipam ips) = total_ipv4s ipam"
  by (induction ips arbitrary: ipam) simp_all

lemma foldl_ipam_insert_ip_inv:
  "ipam_inv ipam \<Longrightarrow> ipam_inv (foldl ipam_insert_ip ipam ips)"
  by (induction ips arbitrary: ipam) (simp_all add: ipam_insert_ip_inv)

lemma bitmap_scan_cases:
  "(bitmap_scan bm False 0 n = n \<and> (\<forall>i<n. bm ! i))
   \<or> (bitmap_scan bm False 0 n < n \<and> \<not> bm ! (bitmap_scan bm False 0 n)
       \<and> (\<forall>j < bitmap_scan bm False 0 n. bm ! j))"
proof (cases "find (\<lambda>i. \<not> bm ! i) [0..<n]")
  case None
  then have "\<forall>i<n. bm ! i" by (auto simp: find_None_iff)
  moreover have "bitmap_scan bm False 0 n = n" using None by (simp add: bitmap_scan_def)
  ultimately show ?thesis by simp
next
  case (Some k)
  then have "k < n \<and> \<not> bm ! k \<and> (\<forall>j<k. bm ! j)"
    by (auto simp: find_Some_iff)
  moreover have "bitmap_scan bm False 0 n = k" using Some by (simp add: bitmap_scan_def)
  ultimately show ?thesis by simp
qed

lemma ipam_get_unused_ip_inv:
  assumes inv: "ipam_inv ipam" and bm: "allocated_ipv4s ipam = Some bm"
    and nz: "ipam_get_unused_ip ipam \<noteq> 0"
  shows "\<exists>idx. 1 \<le> idx \<and> idx < total_ipv4s ipam - 1 \<and> \<not> bm ! idx \<and> (\<forall>j<idx. bm ! j)
           \<and> unat (ipam_get_unused_ip ipam) = unat (start_ipv4 ipam) + idx"
proof -
  define k where "k = bitmap_scan bm False 0 (total_ipv4s ipam - 1)"
  from inv bm have len: "length bm = total_ipv4s ipam" and pos: "0 < total_ipv4s ipam"
    and b0: "bm ! 0" and bnd: "\<forall>i < length bm. bm ! i \<longrightarrow> unat (start_ipv4 ipam) + i < 2 ^ 32"
    by (simp_all add: ipam_inv_def)
  from nz bm have kne: "k \<noteq> total_ipv4s ipam - 1"
    and res: "ipam_get_unused_ip ipam = word_of_nat (unat (start_ipv4 ipam) + k)"
    by (auto simp: ipam_get_unused_ip_def Let_def k_def split: if_splits)
  from bitmap_scan_cases [of bm "total_ipv4s ipam - 1"] kne
  have klt: "k < total_ipv4s ipam - 1" and kclear: "\<not> bm ! k" and below: "\<forall>j<k. bm ! j"
    by (auto simp: k_def)
  from kclear b0 have k1: "1 \<le> k" by (cases k) auto
  have "bm ! (k - 1)" and "k - 1 < length bm" using below k1 klt len by simp_all
  then have "unat (start_ipv4 ipam) + (k - 1) < 2 ^ 32" using bnd by blast
  then have le: "unat (start_ipv4 ipam) + k \<le> 2 ^ 32" using k1 by simp
  have "unat (start_ipv4 ipam) + k \<noteq> 2 ^ 32"
  proof
    assume "unat (start_ipv4 ipam) + k = 2 ^ 32"
    then have "ipam_get_unused_ip ipam = 0" using res by simp
    with nz show False by simp
  qed
  with le have "unat (start_ipv4 ipam) + k < 2 ^ 32" by simp
  then have "unat (word_of_nat (unat (start_ipv4 ipam) + k) :: u32) = unat (start_ipv4 ipam) + k"
    by (simp only: unat_of_nat) simp
  then have "unat (ipam_get_unused_ip ipam) = unat (start_ipv4 ipam) + k"
    by (simp only: res)
  with k1 klt kclear below show ?thesis by blast
qed


text \<open>
  C10: in every state a pass can reach (initialisation followed by any number of
  \<^verbatim>\<open>ipam_insert_ip\<close> calls), a nonzero result of \<^verbatim>\<open>ipam_get_unused_ip\<close> is a clear
  bit strictly between index 0 and the last index \<open>total_ipv4s - 1\<close>, so it satisfies
  \<open>start_ipv4 + 1 \<le> ip < start_ipv4 + total_ipv4s - 1\<close>; and the result is 0 when all bits
  below \<open>total_ipv4s - 1\<close> are set.
\<close>

theorem ipam_get_unused_ip_bounds:
  assumes reach: "ipam = foldl ipam_insert_ip (init_ipam_info_for_datapath cfg excl) ips"
    and bm: "allocated_ipv4s ipam = Some bm"
  shows "(ipam_get_unused_ip ipam \<noteq> 0 \<longrightarrow>
            unat (start_ipv4 ipam) + 1 \<le> unat (ipam_get_unused_ip ipam) \<and>
            unat (ipam_get_unused_ip ipam) < unat (start_ipv4 ipam) + total_ipv4s ipam - 1 \<and>
            \<not> bm ! (unat (ipam_get_unused_ip ipam) - unat (start_ipv4 ipam)))
       \<and> ((\<forall>i < total_ipv4s ipam - 1. bm ! i) \<longrightarrow> ipam_get_unused_ip ipam = 0)"
proof -
  have inv: "ipam_inv ipam"
    unfolding reach by (rule foldl_ipam_insert_ip_inv) (rule init_inv)
  have first: ?thesis if nz: "ipam_get_unused_ip ipam \<noteq> 0"
  proof -
    from ipam_get_unused_ip_inv [OF inv bm nz] obtain idx where
      idx: "1 \<le> idx" "idx < total_ipv4s ipam - 1" "\<not> bm ! idx"
      "unat (ipam_get_unused_ip ipam) = unat (start_ipv4 ipam) + idx"
      by blast
    then have ne: "\<not> (\<forall>i < total_ipv4s ipam - 1. bm ! i)" by blast
    have "unat (ipam_get_unused_ip ipam) - unat (start_ipv4 ipam) = idx" using idx(4) by simp
    moreover have "unat (start_ipv4 ipam) + idx < unat (start_ipv4 ipam) + total_ipv4s ipam - 1"
      using idx(2) by linarith
    ultimately show ?thesis using idx ne by auto
  qed
  have second: "ipam_get_unused_ip ipam = 0" if all: "\<forall>i < total_ipv4s ipam - 1. bm ! i"
  proof -
    from bitmap_scan_cases [of bm "total_ipv4s ipam - 1"] all
    have "bitmap_scan bm False 0 (total_ipv4s ipam - 1) = total_ipv4s ipam - 1" by auto
    then show ?thesis using bm by (simp add: ipam_get_unused_ip_def)
  qed
  show ?thesis
  proof (cases "ipam_get_unused_ip ipam = 0")
    case True
    then show ?thesis by simp
  next
    case False
    then show ?thesis using first by blast
  qed
qed


lemma cidr_29: "ip_is_cidr 0xfffffff8"
  by (simp add: ip_is_cidr_def)

lemma cidr_30: "ip_is_cidr 0xfffffffc"
  by (simp add: ip_is_cidr_def)

lemma replicate_7_False: "replicate 7 False = [False, False, False, False, False, False, False]"
  by (simp add: numeral_eq_Suc)

lemma replicate_3_False: "replicate 3 False = [False, False, False]"
  by (simp add: numeral_eq_Suc)

lemma init_example_29:
  "init_ipam_info_for_datapath (Subnet 0x0a000000 0xfffffff8) None =
    \<lparr>start_ipv4 = 0x0a000001, total_ipv4s = 7,
      allocated_ipv4s = Some [True, False, False, False, False, False, False]\<rparr>"
  by (simp add: init_ipam_info_for_datapath_def cidr_29 bitmap_set1_def bitmap_allocate_def
      replicate_7_False)

lemma init_example_30:
  "init_ipam_info_for_datapath (Subnet 0x0a000000 0xfffffffc) None =
    \<lparr>start_ipv4 = 0x0a000001, total_ipv4s = 3, allocated_ipv4s = Some [True, False, False]\<rparr>"
  by (simp add: init_ipam_info_for_datapath_def cidr_30 bitmap_set1_def bitmap_allocate_def
      replicate_3_False)

theorem ipam_get_unused_ip_bounds_witness:
  "ipam_get_unused_ip (foldl ipam_insert_ip
       (init_ipam_info_for_datapath (Subnet 0x0a000000 0xfffffff8) None) []) = 0x0a000002
   \<and> unat (0x0a000001 :: u32) + 1 \<le> unat (0x0a000002 :: u32)
   \<and> unat (0x0a000002 :: u32) < unat (0x0a000001 :: u32) + 7 - 1
   \<and> allocated_ipv4s (foldl ipam_insert_ip
       (init_ipam_info_for_datapath (Subnet 0x0a000000 0xfffffffc) None) [0x0a000002])
       = Some [True, True, False]
   \<and> ipam_get_unused_ip (foldl ipam_insert_ip
       (init_ipam_info_for_datapath (Subnet 0x0a000000 0xfffffffc) None) [0x0a000002]) = 0"
proof -
  have a: "foldl ipam_insert_ip (init_ipam_info_for_datapath (Subnet 0x0a000000 0xfffffff8) None) []
      = \<lparr>start_ipv4 = 0x0a000001, total_ipv4s = 7,
          allocated_ipv4s = Some [True, False, False, False, False, False, False]\<rparr>"
    by (simp add: init_example_29)
  have b: "foldl ipam_insert_ip (init_ipam_info_for_datapath (Subnet 0x0a000000 0xfffffffc) None)
        [0x0a000002]
      = \<lparr>start_ipv4 = 0x0a000001, total_ipv4s = 3, allocated_ipv4s = Some [True, True, False]\<rparr>"
    by (simp add: init_example_30 ipam_insert_ip_def bitmap_set1_def)
  have ga: "ipam_get_unused_ip \<lparr>start_ipv4 = 0x0a000001, total_ipv4s = 7,
          allocated_ipv4s = Some [True, False, False, False, False, False, False]\<rparr> = 0x0a000002"
    by (simp add: ipam_get_unused_ip_def bitmap_scan_def upt_rec)
  have allb: "\<forall>i < 3 - (1::nat). [True, True, False] ! i"
    by (simp add: less_Suc_eq numeral_eq_Suc)
  from ipam_get_unused_ip_bounds [OF a [symmetric], of "[True, False, False, False, False, False, False]"]
    ipam_get_unused_ip_bounds [OF b [symmetric], of "[True, True, False]"] allb
  show ?thesis
    using a b by (simp add: ga)
qed

section \<open>Properties of the MAC allocator\<close>

lemma scan_unfold: "ipam_mac_scan macam prefix base_addr i mac64 =
     (if i < MAC_ADDR_SPACE - 1 then
        let mac_addr_suffix = ((base_addr + i) mod (MAC_ADDR_SPACE - 1)) + 1;
            mac64' = prefix OR word_of_nat mac_addr_suffix
        in if \<not> ipam_is_duplicate_mac macam (eth_addr_from_uint64 mac64') then (i, mac64')
           else ipam_mac_scan macam prefix base_addr (i + 1) mac64'
      else (i, mac64))"
  by (rule ipam_mac_scan.simps)

declare ipam_mac_scan.simps [simp del]

lemma mac_suffix_range: "1 \<le> mac_suffix b i \<and> mac_suffix b i \<le> 0xfffffe"
proof -
  have "(b + i) mod 16777214 < 16777214" by simp
  then show ?thesis unfolding mac_suffix_def MAC_ADDR_SPACE_def by simp
qed

lemma scan_result:
  "i < MAC_ADDR_SPACE - 1 \<Longrightarrow> ipam_mac_scan macam prefix b i m = (k, r) \<Longrightarrow>
   k \<le> MAC_ADDR_SPACE - 1 \<and> (\<exists>j. i \<le> j \<and> j < MAC_ADDR_SPACE - 1 \<and> r = prefix OR word_of_nat (mac_suffix b j)
      \<and> (k < MAC_ADDR_SPACE - 1 \<longrightarrow> j = k \<and> \<not> ipam_is_duplicate_mac macam (eth_addr_from_uint64 r))
      \<and> (k = MAC_ADDR_SPACE - 1 \<longrightarrow> j = MAC_ADDR_SPACE - 2)
      \<and> (\<forall>l. i \<le> l \<and> l < k \<longrightarrow> ipam_is_duplicate_mac macam (eth_addr_from_uint64 (prefix OR word_of_nat (mac_suffix b l)))))"
proof (induction macam prefix b i m rule: ipam_mac_scan.induct)
  case (1 macam prefix base_addr i mac64)
  let ?m = "prefix OR word_of_nat (mac_suffix base_addr i)"
  show ?case
  proof (cases "ipam_is_duplicate_mac macam (eth_addr_from_uint64 ?m)")
    case False
    then have "ipam_mac_scan macam prefix base_addr i mac64 = (i, ?m)"
      using "1.prems"(1) by (subst scan_unfold) (simp add: mac_suffix_def Let_def)
    with "1.prems" False show ?thesis by auto
  next
    case True
    then have step: "ipam_mac_scan macam prefix base_addr i mac64 = ipam_mac_scan macam prefix base_addr (i + 1) ?m"
      using "1.prems"(1) by (subst scan_unfold) (simp add: mac_suffix_def Let_def)
    show ?thesis
    proof (cases "i + 1 < MAC_ADDR_SPACE - 1")
      case False
      then have "ipam_mac_scan macam prefix base_addr (i + 1) ?m = (i + 1, ?m)"
        by (subst scan_unfold) simp
      with step "1.prems" have kr: "k = i + 1" "r = ?m" by simp_all
      from False "1.prems"(1) have i_eq: "i = MAC_ADDR_SPACE - 2" by (simp add: MAC_ADDR_SPACE_def)
      show ?thesis
        apply (rule conjI)
        using kr False "1.prems"(1) apply simp
        apply (rule exI [of _ i])
        using kr False "1.prems"(1) True i_eq
        by (auto simp: MAC_ADDR_SPACE_def le_less Suc_le_eq less_Suc_eq)
    next
      case lt: True
      have ih: "k \<le> MAC_ADDR_SPACE - 1 \<and> (\<exists>j. i + 1 \<le> j \<and> j < MAC_ADDR_SPACE - 1 \<and> r = prefix OR word_of_nat (mac_suffix base_addr j)
      \<and> (k < MAC_ADDR_SPACE - 1 \<longrightarrow> j = k \<and> \<not> ipam_is_duplicate_mac macam (eth_addr_from_uint64 r))
      \<and> (k = MAC_ADDR_SPACE - 1 \<longrightarrow> j = MAC_ADDR_SPACE - 2)
      \<and> (\<forall>l. i + 1 \<le> l \<and> l < k \<longrightarrow> ipam_is_duplicate_mac macam (eth_addr_from_uint64 (prefix OR word_of_nat (mac_suffix base_addr l)))))"
        using "1.IH" [OF "1.prems"(1) _ _ _ lt] True step "1.prems"(2)
        by (simp add: mac_suffix_def)
      then obtain j where j: "i + 1 \<le> j" "j < MAC_ADDR_SPACE - 1" "r = prefix OR word_of_nat (mac_suffix base_addr j)"
        "k < MAC_ADDR_SPACE - 1 \<longrightarrow> j = k \<and> \<not> ipam_is_duplicate_mac macam (eth_addr_from_uint64 r)"
        "k = MAC_ADDR_SPACE - 1 \<longrightarrow> j = MAC_ADDR_SPACE - 2"
        "\<forall>l. i + 1 \<le> l \<and> l < k \<longrightarrow> ipam_is_duplicate_mac macam (eth_addr_from_uint64 (prefix OR word_of_nat (mac_suffix base_addr l)))"
        by blast
      have all: "\<forall>l. i \<le> l \<and> l < k \<longrightarrow> ipam_is_duplicate_mac macam (eth_addr_from_uint64 (prefix OR word_of_nat (mac_suffix base_addr l)))"
      proof (intro allI impI)
        fix l assume "i \<le> l \<and> l < k"
        then consider "l = i" | "i + 1 \<le> l \<and> l < k" by linarith
        then show "ipam_is_duplicate_mac macam (eth_addr_from_uint64 (prefix OR word_of_nat (mac_suffix base_addr l)))"
          using True j(6) by cases auto
      qed
      show ?thesis
        apply (rule conjI)
        using ih apply simp
        apply (rule exI [of _ j])
        using j all by auto
    qed
  qed
qed

lemma ipam_get_unused_mac_result:
  "\<exists>j < MAC_ADDR_SPACE - 1.
     ipam_get_unused_mac mac_prefix macam ip =
       eth_addr_to_uint64 mac_prefix OR word_of_nat (mac_suffix (unat (ip AND 0xffffff)) j)
     \<and> (\<forall>l < j. ipam_is_duplicate_mac macam (eth_addr_from_uint64
           (eth_addr_to_uint64 mac_prefix OR word_of_nat (mac_suffix (unat (ip AND 0xffffff)) l))))
     \<and> (ipam_is_duplicate_mac macam (eth_addr_from_uint64 (ipam_get_unused_mac mac_prefix macam ip))
           \<longrightarrow> j = MAC_ADDR_SPACE - 2)"
proof -
  obtain k r where kr: "ipam_mac_scan macam (eth_addr_to_uint64 mac_prefix) (unat (ip AND 0xffffff)) 0 0 = (k, r)"
    by (cases "ipam_mac_scan macam (eth_addr_to_uint64 mac_prefix) (unat (ip AND 0xffffff)) 0 0") blast
  have pos: "0 < MAC_ADDR_SPACE - 1" by (simp add: MAC_ADDR_SPACE_def)
  from scan_result [OF pos kr] obtain j where
    k: "k \<le> MAC_ADDR_SPACE - 1" and j: "j < MAC_ADDR_SPACE - 1"
    and r: "r = eth_addr_to_uint64 mac_prefix OR word_of_nat (mac_suffix (unat (ip AND 0xffffff)) j)"
    and lt: "k < MAC_ADDR_SPACE - 1 \<longrightarrow> j = k \<and> \<not> ipam_is_duplicate_mac macam (eth_addr_from_uint64 r)"
    and eq: "k = MAC_ADDR_SPACE - 1 \<longrightarrow> j = MAC_ADDR_SPACE - 2"
    and dups: "\<forall>l. 0 \<le> l \<and> l < k \<longrightarrow> ipam_is_duplicate_mac macam (eth_addr_from_uint64
        (eth_addr_to_uint64 mac_prefix OR word_of_nat (mac_suffix (unat (ip AND 0xffffff)) l)))"
    by blast
  from k have "k \<noteq> MAC_ADDR_SPACE" by (simp add: MAC_ADDR_SPACE_def)
  then have res: "ipam_get_unused_mac mac_prefix macam ip = r"
    using kr by (simp add: ipam_get_unused_mac_def)
  have jk: "j \<le> k" using lt eq k j by (cases "k < MAC_ADDR_SPACE - 1") auto
  have d: "\<forall>l < j. ipam_is_duplicate_mac macam (eth_addr_from_uint64
        (eth_addr_to_uint64 mac_prefix OR word_of_nat (mac_suffix (unat (ip AND 0xffffff)) l)))"
    using dups jk by auto
  have e: "ipam_is_duplicate_mac macam (eth_addr_from_uint64 r) \<longrightarrow> j = MAC_ADDR_SPACE - 2"
    using lt eq k by (cases "k < MAC_ADDR_SPACE - 1") auto
  show ?thesis
    using j r d e unfolding res by blast
qed

lemma set_mac_prefix_low: "eth_addr_to_uint64 (set_mac_prefix a b c) AND mask 24 = 0"
  unfolding set_mac_prefix_def eth_addr_to_uint64_def
  by (rule bit_word_eqI) (auto simp: bit_simps)

lemma suffix_word:
  assumes "s < 2 ^ 24"
  shows "(word_of_nat s :: u64) AND mask 24 = word_of_nat s" and "drop_bit 24 (word_of_nat s :: u64) = 0"
    and "unat (word_of_nat s :: u64) = s"
proof -
  have u: "unat (word_of_nat s :: u64) = s" using assms by (simp add: unat_of_nat)
  show "unat (word_of_nat s :: u64) = s" by (rule u)
  have lt: "(word_of_nat s :: u64) < 2 ^ 24" using u assms by (simp add: word_less_nat_alt)
  then show "(word_of_nat s :: u64) AND mask 24 = word_of_nat s" by (rule less_mask_eq)
  then have "drop_bit 24 (word_of_nat s :: u64) = drop_bit 24 ((word_of_nat s :: u64) AND mask 24)" by simp
  also have "\<dots> = 0" by (rule bit_word_eqI) (auto simp: bit_simps)
  finally show "drop_bit 24 (word_of_nat s :: u64) = 0" .
qed

lemma prefix_or_suffix:
  assumes p: "(P :: u64) AND mask 24 = 0" and s: "s < 2 ^ 24"
  shows "(P OR word_of_nat s) AND mask 24 = word_of_nat s"
    and "drop_bit 24 ((P OR word_of_nat s) XOR P) = 0"
    and "drop_bit 24 (P OR word_of_nat s) = drop_bit 24 P"
proof -
  show "(P OR word_of_nat s) AND mask 24 = word_of_nat s"
    using p suffix_word(1) [OF s] by (simp add: bit.conj_disj_distrib2)
  show "drop_bit 24 (P OR word_of_nat s) = drop_bit 24 P"
    using suffix_word(2) [OF s] by simp
  then show "drop_bit 24 ((P OR word_of_nat s) XOR P) = 0"
    by simp
qed


lemma mask_24_u64: "(0xffffff :: u64) = mask 24" by (simp add: mask_eq_exp_minus_1)
lemma mask_24_ea: "(0xffffff :: eth_addr) = mask 24" by (simp add: mask_eq_exp_minus_1)

lemma from_to_uint64: "eth_addr_from_uint64 (eth_addr_to_uint64 p OR word_of_nat s) = p OR word_of_nat s"
  unfolding eth_addr_from_uint64_def eth_addr_to_uint64_def
  by (rule bit_word_eqI) (auto simp: bit_simps)

lemma set_mac_prefix_low_ea: "set_mac_prefix a b c AND mask 24 = 0"
  unfolding set_mac_prefix_def
  by (rule bit_word_eqI) (auto simp: bit_simps)

lemma suffix_word_ea:
  assumes "s < 2 ^ 24"
  shows "(word_of_nat s :: eth_addr) AND mask 24 = word_of_nat s" and "drop_bit 24 (word_of_nat s :: eth_addr) = 0"
    and "unat (word_of_nat s :: eth_addr) = s"
proof -
  have u: "unat (word_of_nat s :: eth_addr) = s" using assms by (simp add: unat_of_nat)
  show "unat (word_of_nat s :: eth_addr) = s" by (rule u)
  have lt: "(word_of_nat s :: eth_addr) < 2 ^ 24" using u assms by (simp add: word_less_nat_alt)
  then show "(word_of_nat s :: eth_addr) AND mask 24 = word_of_nat s" by (rule less_mask_eq)
  then have "drop_bit 24 (word_of_nat s :: eth_addr) = drop_bit 24 ((word_of_nat s :: eth_addr) AND mask 24)" by simp
  also have "\<dots> = 0" by (rule bit_word_eqI) (auto simp: bit_simps)
  finally show "drop_bit 24 (word_of_nat s :: eth_addr) = 0" .
qed

text \<open>
  C6 (amended): the MAC handed out by the DYNAMIC case of \<^verbatim>\<open>update_dynamic_addresses\<close>,
  \<^verbatim>\<open>eth_addr_from_uint64(ipam_get_unused_mac(ip4))\<close>, has the top 24 bits of the process-wide
  prefix, and its 24-bit suffix lies in the closed interval from 1 to \<open>2 ^ 24 - 2\<close>, whatever
  the MACAM table and the hint address are.
\<close>

theorem dynamic_mac_prefix_suffix:
  "drop_bit 24 (eth_addr_from_uint64 (ipam_get_unused_mac (set_mac_prefix a b c) macam ip))
     = drop_bit 24 (set_mac_prefix a b c)
   \<and> 1 \<le> unat (eth_addr_from_uint64 (ipam_get_unused_mac (set_mac_prefix a b c) macam ip) AND 0xffffff)
   \<and> unat (eth_addr_from_uint64 (ipam_get_unused_mac (set_mac_prefix a b c) macam ip) AND 0xffffff)
       \<le> 2 ^ 24 - 2"
proof -
  from ipam_get_unused_mac_result [of "set_mac_prefix a b c" macam ip] obtain j where
    r: "ipam_get_unused_mac (set_mac_prefix a b c) macam ip =
       eth_addr_to_uint64 (set_mac_prefix a b c) OR word_of_nat (mac_suffix (unat (ip AND 0xffffff)) j)"
    by blast
  define s where "s = mac_suffix (unat (ip AND 0xffffff)) j"
  have s1: "1 \<le> s" and s2: "s \<le> 2 ^ 24 - 2" and s3: "s < 2 ^ 24"
    using mac_suffix_range [of "unat (ip AND 0xffffff)" j] by (simp_all add: s_def)
  have mac: "eth_addr_from_uint64 (ipam_get_unused_mac (set_mac_prefix a b c) macam ip)
      = set_mac_prefix a b c OR word_of_nat s"
    unfolding r s_def by (rule from_to_uint64)
  have low: "(set_mac_prefix a b c OR word_of_nat s) AND mask 24 = word_of_nat s"
    using set_mac_prefix_low_ea [of a b c] suffix_word_ea(1) [OF s3]
    by (simp add: bit.conj_disj_distrib2)
  have high: "drop_bit 24 (set_mac_prefix a b c OR word_of_nat s) = drop_bit 24 (set_mac_prefix a b c)"
    using suffix_word_ea(2) [OF s3] by simp
  show ?thesis
    unfolding mac mask_24_ea low high suffix_word_ea(3) [OF s3]
    using s1 s2 by simp
qed

lemma scan_first_free:
  "\<not> ipam_is_duplicate_mac macam (eth_addr_from_uint64 (prefix OR word_of_nat (mac_suffix b 0))) \<Longrightarrow>
   ipam_mac_scan macam prefix b 0 m = (0, prefix OR word_of_nat (mac_suffix b 0))"
  by (subst scan_unfold) (simp add: mac_suffix_def MAC_ADDR_SPACE_def Let_def)

lemma example_prefix: "set_mac_prefix 0x0a 0 0 = 0x0a0000000000"
  by (simp add: set_mac_prefix_def)

lemma example_first_mac:
  "ipam_get_unused_mac (set_mac_prefix 0x0a 0 0) {} 0 = 0x0a0000000001"
proof -
  have s: "mac_suffix (unat ((0::u32) AND 0xffffff)) 0 = 1" by (simp add: mac_suffix_def MAC_ADDR_SPACE_def)
  have "ipam_mac_scan {} (eth_addr_to_uint64 (set_mac_prefix 0x0a 0 0)) (unat ((0::u32) AND 0xffffff)) 0 0
      = (0, eth_addr_to_uint64 (set_mac_prefix 0x0a 0 0) OR word_of_nat (mac_suffix (unat ((0::u32) AND 0xffffff)) 0))"
    by (rule scan_first_free) (simp add: ipam_is_duplicate_mac_def)
  then show ?thesis
    unfolding ipam_get_unused_mac_def Let_def s
    by (simp add: example_prefix eth_addr_to_uint64_def MAC_ADDR_SPACE_def)
qed

text \<open>
  C6 as stated fails: with an empty MACAM table and hint address 0 (the hint of every switch
  without an IPv4 subnet) the suffix is 1, which is not strictly greater than 1.
\<close>

theorem dynamic_mac_suffix_open_interval_counterexample:
  "\<not> (1 < unat (eth_addr_from_uint64 (ipam_get_unused_mac (set_mac_prefix 0x0a 0 0) {} 0) AND 0xffffff))"
  by (simp add: example_first_mac eth_addr_from_uint64_def)

lemma full_macam_dup:
  "ipam_is_duplicate_mac (full_macam p)
     (eth_addr_from_uint64 (eth_addr_to_uint64 p OR word_of_nat (mac_suffix b l)))"
  unfolding ipam_is_duplicate_mac_def full_macam_def
  using mac_suffix_range [of b l] by (intro imageI) simp

text \<open>
  C2: when every probed suffix collides, the loop leaves with \<open>i = MAC_ADDR_SPACE - 1\<close>, the
  test \<open>i = MAC_ADDR_SPACE\<close> fails, and the last probed (duplicate) address is returned
  instead of 0.
\<close>

theorem ipam_get_unused_mac_exhausted:
  "ipam_get_unused_mac (set_mac_prefix 0x0a 0 0) (full_macam (set_mac_prefix 0x0a 0 0)) 0
     = 0x0a0000fffffe"
proof -
  let ?p = "set_mac_prefix 0x0a 0 0"
  from ipam_get_unused_mac_result [of ?p "full_macam ?p" 0] obtain j where
    r: "ipam_get_unused_mac ?p (full_macam ?p) 0 =
       eth_addr_to_uint64 ?p OR word_of_nat (mac_suffix (unat ((0::u32) AND 0xffffff)) j)"
    and last: "ipam_is_duplicate_mac (full_macam ?p) (eth_addr_from_uint64 (ipam_get_unused_mac ?p (full_macam ?p) 0))
           \<longrightarrow> j = MAC_ADDR_SPACE - 2"
    by blast
  have "ipam_is_duplicate_mac (full_macam ?p) (eth_addr_from_uint64 (ipam_get_unused_mac ?p (full_macam ?p) 0))"
    unfolding r by (rule full_macam_dup)
  with last have j: "j = MAC_ADDR_SPACE - 2" by simp
  have s: "mac_suffix (unat ((0::u32) AND 0xffffff)) (MAC_ADDR_SPACE - 2) = 16777214"
    by (simp add: mac_suffix_def MAC_ADDR_SPACE_def)
  show ?thesis
    unfolding r j s by (simp add: example_prefix eth_addr_to_uint64_def)
qed


lemma ipam_get_unused_mac_nonzero: "ipam_get_unused_mac mac_prefix macam ip \<noteq> 0"
proof -
  from ipam_get_unused_mac_result [of mac_prefix macam ip] obtain j where
    r: "ipam_get_unused_mac mac_prefix macam ip =
       eth_addr_to_uint64 mac_prefix OR word_of_nat (mac_suffix (unat (ip AND 0xffffff)) j)"
    by blast
  define s where "s = mac_suffix (unat (ip AND 0xffffff)) j"
  have "1 \<le> s" and "s < 2 ^ 24"
    using mac_suffix_range [of "unat (ip AND 0xffffff)" j] by (simp_all add: s_def)
  then have "unat (word_of_nat s :: u64) \<noteq> 0" using suffix_word(3) [of s] by simp
  then have "(word_of_nat s :: u64) \<noteq> 0" by auto
  then have "eth_addr_to_uint64 mac_prefix OR word_of_nat s \<noteq> 0"
    by (simp add: or_eq_0_iff)
  then show ?thesis unfolding r s_def by simp
qed

section \<open>Dynamic IPv4 addresses within a pass\<close>

lemma ipam_le_refl [simp]: "ipam_le a a"
  by (simp add: ipam_le_def split: option.splits)

lemma ipam_le_trans: "ipam_le a b \<Longrightarrow> ipam_le b c \<Longrightarrow> ipam_le a c"
  by (auto simp: ipam_le_def split: option.splits)

lemma ipam_le_insert: "ipam_le a (ipam_insert_ip a ip)"
  by (auto simp: ipam_le_def ipam_insert_ip_def bitmap_set1_def nth_set_True split: option.splits)

lemma ipam_le_foldl: "ipam_le a (foldl ipam_insert_ip a ips)"
proof (induction ips arbitrary: a)
  case Nil
  then show ?case by simp
next
  case (Cons ip ips)
  show ?case using ipam_le_trans [OF ipam_le_insert [of a ip] Cons [of "ipam_insert_ip a ip"]] by simp
qed

lemma ipam_le_exclude_range: "ipam_inv a \<Longrightarrow> ipam_le a (exclude_range a s e)"
  by (auto simp: ipam_le_def exclude_range_def Let_def nth_bitmap_set_multiple split: option.splits)

lemma exclude_ranges_simps [simp]:
  "exclude_ranges ipam [] = ipam"
  "exclude_ranges ipam ((s, e) # rs) = exclude_ranges (exclude_range ipam s e) rs"
  by (simp_all add: exclude_ranges_def)

lemma exclude_ips_loop_ranges:
  "exclude_ips_loop ipam toks = exclude_ranges ipam (excluded_ranges toks)"
  by (induction ipam toks rule: exclude_ips_loop.induct) simp_all

lemma exclude_ranges_inv: "ipam_inv a \<Longrightarrow> ipam_inv (exclude_ranges a rs)"
  by (induction rs arbitrary: a) (auto simp: exclude_range_inv)

lemma ipam_le_exclude_ranges: "ipam_inv a \<Longrightarrow> ipam_le a (exclude_ranges a rs)"
proof (induction rs arbitrary: a)
  case Nil
  then show ?case by simp
next
  case (Cons r rs)
  obtain s e where r: "r = (s, e)" by (cases r)
  show ?case
    using ipam_le_trans [OF ipam_le_exclude_range [OF Cons.prems, of s e]
        Cons.IH [OF exclude_range_inv [OF Cons.prems, of s e]]]
    by (simp add: r)
qed

lemma exclude_range_marks:
  assumes inv: "ipam_inv a" and bm: "allocated_ipv4s (exclude_range a s e) = Some bm'"
    and x1: "s \<le> x" and x2: "x < e"
    and r1: "start_ipv4 a \<le> x" and r2: "unat x < unat (start_ipv4 a) + total_ipv4s a"
  shows "bm' ! (unat x - unat (start_ipv4 a))"
proof -
  obtain bm where b: "allocated_ipv4s a = Some bm"
    using bm by (cases "allocated_ipv4s a") (auto simp: exclude_range_def Let_def split: if_splits)
  define st where "st = max (start_ipv4 a) s"
  define en where "en = min (unat (start_ipv4 a) + total_ipv4s a) (unat e)"
  have st_ge: "start_ipv4 a \<le> st" by (simp add: st_def)
  have ust: "unat (st - start_ipv4 a) = unat st - unat (start_ipv4 a)"
    using st_ge by (simp add: unat_sub)
  have ust_ge: "unat (start_ipv4 a) \<le> unat st"
    using st_ge by (simp add: word_le_nat_alt)
  have stx: "unat st \<le> unat x" using x1 r1 by (simp add: st_def max_def word_le_nat_alt)
  have xen: "unat x < en" using x2 r2 by (simp add: en_def word_less_nat_alt)
  from inv b have len: "length bm = total_ipv4s a" by (simp add: ipam_inv_def)
  have eq: "bm' = bitmap_set_multiple bm (unat st - unat (start_ipv4 a)) (en - unat st)"
    using bm b ust stx xen by (simp add: exclude_range_def Let_def st_def en_def)
  have idx: "unat x - unat (start_ipv4 a) < length bm" using r2 len ust_ge stx by linarith
  show ?thesis
    unfolding eq using idx stx xen ust_ge by (simp add: nth_bitmap_set_multiple) linarith
qed

lemma exclude_ranges_marked:
  assumes "ipam_inv a" and "allocated_ipv4s (exclude_ranges a rs) = Some bm'"
    and "(s, e) \<in> set rs" and "s \<le> x" and "x < e"
    and "start_ipv4 a \<le> x" and "unat x < unat (start_ipv4 a) + total_ipv4s a"
  shows "bm' ! (unat x - unat (start_ipv4 a))"
  using assms
proof (induction rs arbitrary: a)
  case Nil
  then show ?case by simp
next
  case (Cons r rs)
  obtain s' e' where r: "r = (s', e')" by (cases r)
  have inv1: "ipam_inv (exclude_range a s' e')" by (rule exclude_range_inv [OF Cons.prems(1)])
  have bm': "allocated_ipv4s (exclude_ranges (exclude_range a s' e') rs) = Some bm'"
    using Cons.prems(2) by (simp add: r)
  show ?case
  proof (cases "(s, e) = (s', e')")
    case True
    have le: "ipam_le (exclude_range a s' e') (exclude_ranges (exclude_range a s' e') rs)"
      by (rule ipam_le_exclude_ranges [OF inv1])
    then obtain bm1 where b1: "allocated_ipv4s (exclude_range a s' e') = Some bm1"
      using bm' by (auto simp: ipam_le_def split: option.splits)
    have "bm1 ! (unat x - unat (start_ipv4 a))"
      using exclude_range_marks [OF Cons.prems(1) b1, of x] True Cons.prems by simp
    moreover have "unat x - unat (start_ipv4 a) < length bm1"
      using inv1 b1 Cons.prems(6,7) by (simp add: ipam_inv_def word_le_nat_alt)
    ultimately show ?thesis
      using le bm' b1 by (auto simp: ipam_le_def)
  next
    case False
    then have "(s, e) \<in> set rs" using Cons.prems(3) r by auto
    from Cons.IH [OF inv1 bm' this Cons.prems(4,5)] Cons.prems(6,7)
    show ?thesis by simp
  qed
qed

lemma init_fields:
  "allocated_ipv4s (init_ipam_info_for_datapath cfg excl) = Some bm \<Longrightarrow>
   \<exists>subnet netmask. cfg = Subnet subnet netmask \<and> netmask \<noteq> - 1 \<and> ip_is_cidr netmask
     \<and> start_ipv4 (init_ipam_info_for_datapath cfg excl) = subnet + 1
     \<and> total_ipv4s (init_ipam_info_for_datapath cfg excl) = unat (NOT netmask)"
  by (cases cfg; cases excl)
    (auto simp: init_ipam_info_for_datapath_def ipam_zero_def Let_def split: if_splits)

lemma init_excluded:
  assumes bm: "allocated_ipv4s (init_ipam_info_for_datapath cfg (Some toks)) = Some bm"
    and r: "(s, e) \<in> set (excluded_ranges toks)" and x: "s \<le> x" "x < e"
    and rng: "start_ipv4 (init_ipam_info_for_datapath cfg (Some toks)) \<le> x"
      "unat x < unat (start_ipv4 (init_ipam_info_for_datapath cfg (Some toks)))
         + total_ipv4s (init_ipam_info_for_datapath cfg (Some toks))"
  shows "bm ! (unat x - unat (start_ipv4 (init_ipam_info_for_datapath cfg (Some toks))))"
proof -
  from init_fields [OF bm] obtain subnet netmask where
    cfg: "cfg = Subnet subnet netmask" and nm: "netmask \<noteq> - 1" "ip_is_cidr netmask"
    by blast
  define base where "base = \<lparr>start_ipv4 = subnet + 1, total_ipv4s = unat (NOT netmask),
              allocated_ipv4s = Some (bitmap_set1 (bitmap_allocate (unat (NOT netmask))) 0)\<rparr>"
  have eq: "init_ipam_info_for_datapath cfg (Some toks) = exclude_ranges base (excluded_ranges toks)"
    using nm by (simp add: cfg init_ipam_info_for_datapath_def Let_def base_def exclude_ips_loop_ranges)
  have inv: "ipam_inv base" unfolding base_def by (rule init_base_inv [OF nm(1)])
  have f: "start_ipv4 (exclude_ranges base (excluded_ranges toks)) = start_ipv4 base"
    "total_ipv4s (exclude_ranges base (excluded_ranges toks)) = total_ipv4s base"
    by (simp_all add: exclude_ips_loop_ranges [symmetric])
  show ?thesis
    using exclude_ranges_marked [OF inv _ r x, of bm] bm rng unfolding eq f by simp
qed

lemma init_bit0:
  "allocated_ipv4s (init_ipam_info_for_datapath cfg excl) = Some bm \<Longrightarrow> bm ! 0"
  using init_inv [of cfg excl] by (simp add: ipam_inv_def)

lemma nat_cidr: "(n::nat) AND (n + 1) = 0 \<Longrightarrow> \<exists>k. n = 2 ^ k - 1"
proof (induction n rule: nat_bit_induct)
  case zero
  show ?case by (rule exI [of _ 0]) simp
next
  case (even n)
  have "2 * n AND (2 * n + 1) = 2 * n"
    by (subst and_nat_rec) simp
  with even show ?case by simp
next
  case (odd n)
  have "Suc (2 * n) AND (Suc (2 * n) + 1) = 2 * (n AND (n + 1))"
    by (subst and_nat_rec) simp
  with odd.prems have "n AND (n + 1) = 0" by simp
  from odd.IH [OF this] obtain k where k: "n = 2 ^ k - 1" by blast
  have p: "(1::nat) \<le> 2 ^ k" by simp
  have "Suc (2 * n) = 2 * 2 ^ k - 1" using k p by linarith
  then have "Suc (2 * n) = 2 ^ Suc k - 1" by simp
  then show ?case by blast
qed

lemma word_succ_nonzero: "(m::u32) \<noteq> - 1 \<Longrightarrow> 1 + m \<noteq> 0"
proof
  assume ne: "m \<noteq> - 1" and z: "1 + m = 0"
  have "m = (1 + m) - 1" by simp
  also have "\<dots> = - 1" by (simp only: z) simp
  finally show False using ne by simp
qed

lemma word_cidr:
  assumes "ip_is_cidr netmask"
  shows "\<exists>k. NOT netmask = mask k \<and> unat (NOT netmask) = 2 ^ k - 1"
proof (cases "NOT netmask = - 1")
  case True
  have "(- 1 :: u32) = mask 32" by (simp add: mask_eq_exp_minus_1)
  moreover have "unat (- 1 :: u32) = 2 ^ 32 - 1"
    by (simp add: unsigned_minus_1_eq_mask mask_nat_def)
  ultimately show ?thesis using True by auto
next
  case False
  define m where "m = NOT netmask"
  have m1: "1 + m \<noteq> 0" using False unfolding m_def by (rule word_succ_nonzero)
  have u1: "unat (m + 1) = unat m + 1" using unatSuc [OF m1] by (simp add: add.commute)
  have "m AND (m + 1) = 0" using assms by (simp add: ip_is_cidr_def m_def Let_def)
  then have "unat (m AND (m + 1)) = 0" by simp
  then have "unat m AND (unat m + 1) = 0" by (simp add: unsigned_and_eq u1)
  from nat_cidr [OF this] obtain k where k: "unat m = 2 ^ k - 1" by blast
  have "m = word_of_nat (unat m)" by simp
  also have "\<dots> = word_of_nat (mask k)" by (simp only: k mask_nat_def)
  also have "\<dots> = mask k" by (simp add: of_nat_mask_eq)
  finally show ?thesis using k unfolding m_def by blast
qed

lemma cidr_contain:
  fixes subnet netmask ip :: u32
  assumes nm: "netmask \<noteq> - 1" and cidr: "ip_is_cidr netmask"
    and al: "subnet AND NOT netmask = 0"
    and ip: "unat ip = unat (subnet + 1) + idx" and idx: "idx < unat (NOT netmask) - 1"
  shows "ip AND netmask = subnet"
proof -
  from word_cidr [OF cidr] obtain k where k: "NOT netmask = mask k"
    and uk: "unat (NOT netmask) = 2 ^ k - 1" by blast
  have "NOT (NOT netmask) = NOT (mask k)" by (simp only: k)
  then have nmk: "netmask = NOT (mask k)" by simp
  have mpos: "0 < unat (mask k :: u32)" using unat_not_lt [OF nm] k by simp
  have sk: "subnet AND mask k = 0" using al k by simp
  have "subnet \<noteq> - 1"
  proof
    assume "subnet = - 1"
    then have "(mask k :: u32) = 0" using sk by simp
    then show False using mpos by simp
  qed
  then have "1 + subnet \<noteq> 0" by (rule word_succ_nonzero)
  then have s1: "unat (subnet + 1) = unat subnet + 1" using unatSuc [of subnet] by (simp add: add.commute)
  define w :: u32 where "w = word_of_nat (1 + idx)"
  have wlt: "1 + idx < 2 ^ k - 1" using idx uk by simp
  have mk_lt: "unat (NOT netmask) < 2 ^ 32" using unsigned_less [of "NOT netmask"] by simp
  then have i32: "1 + idx < 2 ^ 32" using idx by linarith
  have "unat w = (1 + idx) mod 2 ^ 32" unfolding w_def by (simp only: unat_of_nat) simp
  then have uw: "unat w = 1 + idx" using i32 by simp
  have ipw: "ip = subnet + w"
  proof -
    have "unat ip = unat subnet + unat w" using ip s1 uw by simp
    moreover have "unat ip < 2 ^ 32" using unsigned_less [of ip] by simp
    ultimately have "unat ip = unat (subnet + w)" by (simp add: unat_word_ariths)
    then show ?thesis by (simp add: word_unat_eq_iff)
  qed
  have "uint w < 2 ^ k"
  proof -
    have "unat w < 2 ^ k" using uw wlt by linarith
    then have "int (unat w) < int (2 ^ k)" by (rule iffD2 [OF of_nat_less_iff])
    then show ?thesis by simp
  qed
  then have wm: "w AND mask k = w" by (simp add: mask_eq_iff)
  have disj: "subnet AND w = 0"
  proof -
    have "subnet AND w = subnet AND (w AND mask k)" by (simp add: wm)
    also have "\<dots> = (subnet AND mask k) AND w" by (simp add: and.commute and.left_commute)
    also have "\<dots> = 0" by (simp add: sk)
    finally show ?thesis .
  qed
  have wn: "w AND NOT (mask k) = 0"
  proof -
    have "w AND NOT (mask k) = (w AND mask k) AND NOT (mask k)" by (simp add: wm)
    also have "\<dots> = 0" by (simp add: and.assoc)
    finally show ?thesis .
  qed
  have sn: "subnet AND NOT (mask k) = subnet"
  proof (rule bit_word_eqI)
    fix n assume n: "n < LENGTH(32)"
    have "bit (subnet AND mask k) n = bit (0::u32) n" by (simp only: sk)
    then show "bit (subnet AND NOT (mask k)) n = bit subnet n"
      using n by (auto simp: bit_simps)
  qed
  have "ip = subnet OR w" unfolding ipw by (rule disjunctive_add_eq_or [OF disj])
  then have "ip AND netmask = (subnet AND NOT (mask k)) OR (w AND NOT (mask k))"
    by (simp add: nmk bit.conj_disj_distrib2)
  then show ?thesis by (simp add: wn sn)
qed

lemma alloc_ok_mono:
  assumes "ipam_le a0 a" and "alloc_ok a a' ip" and "ipam_le a' a''"
  shows "alloc_ok a0 a'' ip"
proof -
  from assms(2) obtain bm bm' idx where
    h: "allocated_ipv4s a = Some bm" "allocated_ipv4s a' = Some bm'"
       "1 \<le> idx" "idx < total_ipv4s a - 1" "idx < length bm" "idx < length bm'" "\<not> bm ! idx" "bm' ! idx"
       "unat ip = unat (start_ipv4 a) + idx"
    unfolding alloc_ok_def by blast
  from assms(1) h(1) obtain bm0 where b0: "allocated_ipv4s a0 = Some bm0" "length bm0 = length bm"
    "\<forall>i < length bm0. bm0 ! i \<longrightarrow> bm ! i" "start_ipv4 a0 = start_ipv4 a" "total_ipv4s a0 = total_ipv4s a"
    by (auto simp: ipam_le_def split: option.splits)
  from assms(3) h(2) obtain bm2 where b2: "allocated_ipv4s a'' = Some bm2" "length bm' = length bm2"
    "\<forall>i < length bm'. bm' ! i \<longrightarrow> bm2 ! i"
    by (auto simp: ipam_le_def split: option.splits)
  have "\<not> bm0 ! idx" using b0 h(5,7) by auto
  moreover have "bm2 ! idx" using b2 h(6,8) by auto
  ultimately show ?thesis
    unfolding alloc_ok_def using h b0 b2 by auto
qed

lemma alloc_ok_clash:
  assumes "alloc_ok a a1 ip" and "alloc_ok a1 a2 ip" and "start_ipv4 a = start_ipv4 a1"
  shows False
proof -
  from assms(1) obtain bm bm' idx where
    h: "allocated_ipv4s a = Some bm" "allocated_ipv4s a1 = Some bm'" "bm' ! idx"
       "unat ip = unat (start_ipv4 a) + idx"
    unfolding alloc_ok_def by blast
  from assms(2) obtain bm1 bm2 idx' where
    h': "allocated_ipv4s a1 = Some bm1" "\<not> bm1 ! idx'" "unat ip = unat (start_ipv4 a1) + idx'"
    unfolding alloc_ok_def by blast
  have "idx = idx'" using h(4) h'(3) assms(3) by simp
  then show False using h(2,3) h'(1,2) by simp
qed

lemma update_step:
  assumes upd: "update_dynamic_addresses P u st = Inr (st1, m, ip4)" and inv: "invs st"
  shows "invs st1" and "\<forall>d. ipam_le (st_ipams st d) (st_ipams st1 d)"
    and "upd_ipv4 u = DYNAMIC \<Longrightarrow> ip4 \<noteq> 0 \<Longrightarrow>
           alloc_ok (st_ipams st (upd_od u)) (st_ipams st1 (upd_od u)) ip4"
proof -
  have ips: "st_ipams st1 = (if ip4 \<noteq> 0
      then (st_ipams st)(upd_od u := ipam_insert_ip (st_ipams st (upd_od u)) ip4) else st_ipams st)"
    and ipdyn: "upd_ipv4 u = DYNAMIC \<Longrightarrow> ip4 = ipam_get_unused_ip (st_ipams st (upd_od u))"
    using upd
    by (auto simp: update_dynamic_addresses_def Let_def split: sum.splits dynamic_update_type.splits)
  show "invs st1" using inv by (auto simp: invs_def ips ipam_insert_ip_inv)
  show "\<forall>d. ipam_le (st_ipams st d) (st_ipams st1 d)" by (auto simp: ips ipam_le_insert)
  show "alloc_ok (st_ipams st (upd_od u)) (st_ipams st1 (upd_od u)) ip4"
    if dyn: "upd_ipv4 u = DYNAMIC" and nz: "ip4 \<noteq> 0"
  proof -
    let ?a = "st_ipams st (upd_od u)"
    have ip: "ip4 = ipam_get_unused_ip ?a" by (rule ipdyn [OF dyn])
    have inva: "ipam_inv ?a" using inv by (simp add: invs_def)
    obtain bm where bm: "allocated_ipv4s ?a = Some bm"
      using nz ip by (cases "allocated_ipv4s ?a") (auto simp: ipam_get_unused_ip_def)
    from ipam_get_unused_ip_inv [OF inva bm] nz ip obtain idx where
      idx: "1 \<le> idx" "idx < total_ipv4s ?a - 1" "\<not> bm ! idx" "unat ip4 = unat (start_ipv4 ?a) + idx"
      by auto
    from inva bm have len: "length bm = total_ipv4s ?a" by (simp add: ipam_inv_def)
    have ge: "start_ipv4 ?a \<le> ip4" using idx(4) by (simp add: word_le_nat_alt)
    have sub: "unat (ip4 - start_ipv4 ?a) = idx" using ge idx(4) by (simp add: unat_sub)
    have ins: "ipam_insert_ip ?a ip4 = ?a\<lparr>allocated_ipv4s := Some (bitmap_set1 bm idx)\<rparr>"
      using bm ge idx(2,4) sub by (simp add: ipam_insert_ip_def)
    have "st_ipams st1 (upd_od u) = ?a\<lparr>allocated_ipv4s := Some (bitmap_set1 bm idx)\<rparr>"
      using nz by (simp add: ips ins)
    then show ?thesis
      unfolding alloc_ok_def using bm idx len by (auto simp: bitmap_set1_def)
  qed
qed

lemma dynamic_ips_Cons:
  "dynamic_ips (u # us) ((m, ip4) # outs) =
     (if upd_ipv4 u = DYNAMIC \<and> ip4 \<noteq> 0 then [(upd_od u, ip4)] else []) @ dynamic_ips us outs"
  by (simp add: dynamic_ips_def)

lemma dynamic_ips_Nil [simp]: "dynamic_ips [] outs = []"
  by (simp add: dynamic_ips_def)

lemma process_updates_run:
  assumes "process_updates P us st = Inr (st', outs)" and "invs st"
  shows "invs st' \<and> (\<forall>d. ipam_le (st_ipams st d) (st_ipams st' d)) \<and> length outs = length us \<and>
         (\<forall>(d, ip) \<in> set (dynamic_ips us outs). alloc_ok (st_ipams st d) (st_ipams st' d) ip) \<and>
         distinct (dynamic_ips us outs)"
  using assms
proof (induction us arbitrary: st st' outs)
  case Nil
  then show ?case by simp
next
  case (Cons u us)
  from Cons.prems(1) obtain st1 m ip4 outs1 where
    step: "update_dynamic_addresses P u st = Inr (st1, m, ip4)"
    and rest: "process_updates P us st1 = Inr (st', outs1)"
    and outs: "outs = (m, ip4) # outs1"
    by (auto split: sum.splits prod.splits)
  note s = update_step [OF step Cons.prems(2)]
  from Cons.IH [OF rest s(1)] have
    ih: "invs st'" "\<forall>d. ipam_le (st_ipams st1 d) (st_ipams st' d)" "length outs1 = length us"
      "\<forall>(d, ip) \<in> set (dynamic_ips us outs1). alloc_ok (st_ipams st1 d) (st_ipams st' d) ip"
      "distinct (dynamic_ips us outs1)"
    by simp_all
  have le: "\<forall>d. ipam_le (st_ipams st d) (st_ipams st' d)"
    using s(2) ih(2) ipam_le_trans by blast
  have tail: "\<forall>(d, ip) \<in> set (dynamic_ips us outs1). alloc_ok (st_ipams st d) (st_ipams st' d) ip"
    using ih(4) s(2) alloc_ok_mono [OF _ _ ipam_le_refl] by fastforce
  show ?case
  proof (cases "upd_ipv4 u = DYNAMIC \<and> ip4 \<noteq> 0")
    case False
    then show ?thesis
      using ih le tail by (auto simp: outs dynamic_ips_Cons)
  next
    case True
    then have ok1: "alloc_ok (st_ipams st (upd_od u)) (st_ipams st1 (upd_od u)) ip4"
      using s(3) by simp
    have head: "alloc_ok (st_ipams st (upd_od u)) (st_ipams st' (upd_od u)) ip4"
      using alloc_ok_mono [OF ipam_le_refl ok1] ih(2) by simp
    have notin: "(upd_od u, ip4) \<notin> set (dynamic_ips us outs1)"
    proof
      assume "(upd_od u, ip4) \<in> set (dynamic_ips us outs1)"
      then have "alloc_ok (st_ipams st1 (upd_od u)) (st_ipams st' (upd_od u)) ip4"
        using ih(4) by auto
      moreover have "start_ipv4 (st_ipams st (upd_od u)) = start_ipv4 (st_ipams st1 (upd_od u))"
        using s(2) by (simp add: ipam_le_def)
      ultimately show False using alloc_ok_clash [OF ok1] by blast
    qed
    show ?thesis
      using True ih le tail head notin by (auto simp: outs dynamic_ips_Cons)
  qed
qed

text \<open>
  What a pass does guarantee: the dynamic IPv4 addresses drawn by the queued updates are pairwise
  different per switch; each lies strictly between \<open>start_ipv4\<close> (index 0, pre-marked) and
  the last index of the switch's range; none lies in a range of \<^verbatim>\<open>exclude_ips\<close> the
  initialisation parsed; and when the configured subnet address has no host bits set, each
  lies in the configured CIDR block.
\<close>

theorem dynamic_ipv4_containment:
  assumes run: "process_updates mac_prefix updates (ipam_pass_state cfgs claims macam0) = Inr (st', outs)"
  shows "distinct (dynamic_ips updates outs) \<and>
    (\<forall>(d, ip) \<in> set (dynamic_ips updates outs).
        unat (start_ipv4 (init_ipam_info_for_datapath (fst (cfgs d)) (snd (cfgs d)))) < unat ip
      \<and> unat ip < unat (start_ipv4 (init_ipam_info_for_datapath (fst (cfgs d)) (snd (cfgs d))))
            + total_ipv4s (init_ipam_info_for_datapath (fst (cfgs d)) (snd (cfgs d))) - 1
      \<and> (\<forall>toks s e. snd (cfgs d) = Some toks \<longrightarrow> (s, e) \<in> set (excluded_ranges toks)
            \<longrightarrow> \<not> (s \<le> ip \<and> ip < e))
      \<and> (\<forall>subnet netmask. fst (cfgs d) = Subnet subnet netmask \<longrightarrow> subnet AND NOT netmask = 0
            \<longrightarrow> ip AND netmask = subnet))"
proof -
  let ?init = "\<lambda>d. init_ipam_info_for_datapath (fst (cfgs d)) (snd (cfgs d))"
  let ?st = "ipam_pass_state cfgs claims macam0"
  have inv0: "invs ?st"
    by (simp add: invs_def ipam_pass_state_def foldl_ipam_insert_ip_inv init_inv)
  have le0: "ipam_le (?init d) (st_ipams ?st d)" for d
    by (simp add: ipam_pass_state_def ipam_le_foldl)
  from process_updates_run [OF run inv0] have
    dist: "distinct (dynamic_ips updates outs)"
    and ok: "\<forall>(d, ip) \<in> set (dynamic_ips updates outs). alloc_ok (st_ipams ?st d) (st_ipams st' d) ip"
    by simp_all
  have each: "unat (start_ipv4 (?init d)) < unat ip
      \<and> unat ip < unat (start_ipv4 (?init d)) + total_ipv4s (?init d) - 1
      \<and> (\<forall>toks s e. snd (cfgs d) = Some toks \<longrightarrow> (s, e) \<in> set (excluded_ranges toks)
            \<longrightarrow> \<not> (s \<le> ip \<and> ip < e))
      \<and> (\<forall>subnet netmask. fst (cfgs d) = Subnet subnet netmask \<longrightarrow> subnet AND NOT netmask = 0
            \<longrightarrow> ip AND netmask = subnet)"
    if mem: "(d, ip) \<in> set (dynamic_ips updates outs)" for d ip
  proof -
    from ok mem have "alloc_ok (st_ipams ?st d) (st_ipams st' d) ip" by auto
    from alloc_ok_mono [OF le0 this ipam_le_refl] obtain bm0 idx where
      bm0: "allocated_ipv4s (?init d) = Some bm0" and idx: "1 \<le> idx" "idx < total_ipv4s (?init d) - 1"
      and clear: "\<not> bm0 ! idx" and ip: "unat ip = unat (start_ipv4 (?init d)) + idx"
      unfolding alloc_ok_def by blast
    have r1: "unat (start_ipv4 (?init d)) < unat ip" using ip idx(1) by simp
    have r2: "unat ip < unat (start_ipv4 (?init d)) + total_ipv4s (?init d) - 1"
      using ip idx(2) by linarith
    have ge: "start_ipv4 (?init d) \<le> ip" using r1 by (simp add: word_le_nat_alt)
    have lt: "unat ip < unat (start_ipv4 (?init d)) + total_ipv4s (?init d)" using r2 by linarith
    have sub: "unat ip - unat (start_ipv4 (?init d)) = idx" using ip by simp
    have excl: "\<not> (s \<le> ip \<and> ip < e)"
      if toks: "snd (cfgs d) = Some toks" and r: "(s, e) \<in> set (excluded_ranges toks)" for toks s e
    proof
      assume a: "s \<le> ip \<and> ip < e"
      have "bm0 ! (unat ip - unat (start_ipv4 (init_ipam_info_for_datapath (fst (cfgs d)) (Some toks))))"
        using init_excluded [of "fst (cfgs d)" toks bm0 s e ip] bm0 r a ge lt
        by (simp add: toks)
      then show False using clear sub by (simp add: toks)
    qed
    have cidr: "ip AND netmask = subnet"
      if c: "fst (cfgs d) = Subnet subnet netmask" and al: "subnet AND NOT netmask = 0" for subnet netmask
    proof -
      from init_fields [OF bm0] c have nm: "netmask \<noteq> - 1" "ip_is_cidr netmask"
        and st: "start_ipv4 (?init d) = subnet + 1" and tot: "total_ipv4s (?init d) = unat (NOT netmask)"
        by auto
      show ?thesis
        by (rule cidr_contain [OF nm al, of ip idx]) (use ip idx st tot in simp_all)
    qed
    show ?thesis using r1 r2 excl cidr by blast
  qed
  show ?thesis using dist each by blast
qed

lemma init_example_excl:
  "init_ipam_info_for_datapath (Subnet 0x0a000000 0xfffffff8) (Some [LEX_T_INTEGER 0x0a000002]) =
    \<lparr>start_ipv4 = 0x0a000001, total_ipv4s = 7,
      allocated_ipv4s = Some [True, True, False, False, False, False, False]\<rparr>"
  by (simp add: init_ipam_info_for_datapath_def cidr_29 bitmap_set1_def bitmap_allocate_def
      replicate_7_False exclude_range_def)

lemma example_run:
  "process_updates (set_mac_prefix 0x0a 0 0)
     [\<lparr>upd_od = 0, current_addresses = \<lparr>ea = 0, ipv4_addrs = []\<rparr>, static_mac = 0x020000000001,
        static_ip = 0, upd_mac = STATIC, upd_ipv4 = DYNAMIC\<rparr>,
      \<lparr>upd_od = 0, current_addresses = \<lparr>ea = 0, ipv4_addrs = []\<rparr>, static_mac = 0x020000000002,
        static_ip = 0, upd_mac = STATIC, upd_ipv4 = DYNAMIC\<rparr>]
     (ipam_pass_state (\<lambda>d. (Subnet 0x0a000000 0xfffffff8, Some [LEX_T_INTEGER 0x0a000002]))
        (\<lambda>d. []) {})
   = Inr (\<lparr>st_macam = {},
          st_ipams = (\<lambda>d. \<lparr>start_ipv4 = 0x0a000001, total_ipv4s = 7,
              allocated_ipv4s = Some [True, True, False, False, False, False, False]\<rparr>)
            (0 := \<lparr>start_ipv4 = 0x0a000001, total_ipv4s = 7,
              allocated_ipv4s = Some [True, True, True, True, False, False, False]\<rparr>)\<rparr>,
        [(0x020000000001, 0x0a000003), (0x020000000002, 0x0a000004)])"
  by (simp add: ipam_pass_state_def init_example_excl update_dynamic_addresses_def
      ipam_get_unused_ip_def bitmap_scan_def upt_rec ipam_insert_ip_def bitmap_set1_def
      ipam_insert_mac_def eth_addr_to_uint64_def example_prefix)

theorem dynamic_ipv4_containment_witness:
  "map_sum id snd (process_updates (set_mac_prefix 0x0a 0 0)
     [\<lparr>upd_od = 0, current_addresses = \<lparr>ea = 0, ipv4_addrs = []\<rparr>, static_mac = 0x020000000001,
        static_ip = 0, upd_mac = STATIC, upd_ipv4 = DYNAMIC\<rparr>,
      \<lparr>upd_od = 0, current_addresses = \<lparr>ea = 0, ipv4_addrs = []\<rparr>, static_mac = 0x020000000002,
        static_ip = 0, upd_mac = STATIC, upd_ipv4 = DYNAMIC\<rparr>]
     (ipam_pass_state (\<lambda>d. (Subnet 0x0a000000 0xfffffff8, Some [LEX_T_INTEGER 0x0a000002]))
        (\<lambda>d. []) {}))
     = Inr [(0x020000000001, 0x0a000003), (0x020000000002, 0x0a000004)]
   \<and> distinct [(0::nat, 0x0a000003::u32), (0, 0x0a000004)]
   \<and> unat (0x0a000001::u32) < unat (0x0a000003::u32)
   \<and> unat (0x0a000004::u32) < unat (0x0a000001::u32) + 7 - 1
   \<and> (0x0a000002::u32) \<le> 0x0a000002 \<and> (0x0a000002::u32) < 0x0a000002 + 1
   \<and> (0x0a000000::u32) AND NOT 0xfffffff8 = 0
   \<and> (0x0a000003::u32) AND 0xfffffff8 = 0x0a000000
   \<and> (0x0a000004::u32) AND 0xfffffff8 = 0x0a000000"
proof -
  note drawn = dynamic_ipv4_containment [OF example_run]
  show ?thesis
    unfolding example_run using drawn by simp
qed

text \<open>
  C5: a dynamic address is to lie in the switch's subnet, and the comments of the allocator
  call the range from \<open>start_ipv4\<close> on "the subnet".  \<^verbatim>\<open>init_ipam_info_for_datapath\<close> takes
  \<open>start_ipv4 = ntohl(subnet) + 1\<close> and never masks the configured address, although it
  checks the mask.  For \<^verbatim>\<open>other_config:subnet = 10.0.0.2/30\<close> it marks \<open>10.0.0.3\<close> as the
  first address of the subnet and the first address drawn is \<open>10.0.0.4\<close>, outside the block
  \<open>10.0.0.0/30\<close>.
\<close>

theorem dynamic_ipv4_outside_subnet:
  "ipam_get_unused_ip (init_ipam_info_for_datapath (Subnet 0x0a000002 0xfffffffc) None) = 0x0a000004
   \<and> (0x0a000004 :: u32) AND 0xfffffffc \<noteq> 0x0a000002 AND 0xfffffffc"
  by (simp add: init_ipam_info_for_datapath_def cidr_30 bitmap_set1_def bitmap_allocate_def
      replicate_3_False ipam_get_unused_ip_def bitmap_scan_def upt_rec)

section \<open>Properties of the tunnel-id allocator\<close>

lemma unat_succ: "unat (t::u32) < 2 ^ 32 - 1 \<Longrightarrow> unat (t + 1) = unat t + 1"
  by (simp add: unat_word_ariths)

lemma next_tnlid_below:
  assumes "unat t < unat tmax" 
  shows "next_tnlid t tmin tmax = t + 1" and "unat (t + 1) = unat t + 1"
proof -
  have "unat tmax < 2 ^ 32" using unsigned_less [of tmax] by simp
  then have lt: "unat t < 2 ^ 32 - 1" using assms by linarith
  show u: "unat (t + 1) = unat t + 1" by (rule unat_succ [OF lt])
  then have "t + 1 \<le> tmax" using assms by (simp add: word_le_nat_alt)
  then show "next_tnlid t tmin tmax = t + 1" by (simp add: next_tnlid_def)
qed

lemma next_tnlid_top:
  assumes "unat t = unat tmax" and "unat tmax < 2 ^ 32 - 1"
  shows "next_tnlid t tmin tmax = tmin"
proof -
  have "unat (t + 1) = unat tmax + 1" using unat_succ [of t] assms by simp
  then have "\<not> t + 1 \<le> tmax" by (simp add: word_le_nat_alt)
  then show ?thesis by (simp add: next_tnlid_def)
qed

lemma scan_found:
  "tnlid \<noteq> hint \<Longrightarrow> tnlid \<notin> in_use \<Longrightarrow> allocate_scan in_use tmin tmax hint tnlid = Some (Some tnlid)"
  by (subst allocate_scan.simps) (simp add: tnlid_in_use_def)

lemma scan_hint: "allocate_scan in_use tmin tmax hint hint = Some None"
  by (subst allocate_scan.simps) simp

lemma scan_step:
  "tnlid \<noteq> hint \<Longrightarrow> tnlid \<in> in_use \<Longrightarrow>
   allocate_scan in_use tmin tmax hint tnlid = allocate_scan in_use tmin tmax hint (next_tnlid tnlid tmin tmax)"
  by (subst allocate_scan.simps) (simp add: tnlid_in_use_def)

lemma scan_ascend:
  assumes "unat t \<le> unat x" and "unat x \<le> unat tmax" and "x \<notin> in_use" and "x \<noteq> hint"
    and "\<forall>y. unat t \<le> unat y \<and> unat y < unat x \<longrightarrow> y \<in> in_use \<and> y \<noteq> hint"
  shows "allocate_scan in_use tmin tmax hint t = Some (Some x)"
  using assms
proof (induction "unat x - unat t" arbitrary: t)
  case 0
  then have "t = x" by (simp add: word_unat_eq_iff)
  then show ?case using 0 scan_found by simp
next
  case (Suc n)
  then have lt: "unat t < unat x" by linarith
  then have tin: "t \<in> in_use" "t \<noteq> hint" using Suc.prems(5) by auto
  have ltm: "unat t < unat tmax" using lt Suc.prems(2) by linarith
  note nx = next_tnlid_below(1) [OF ltm, of tmin] next_tnlid_below(2) [OF ltm]
  have "allocate_scan in_use tmin tmax hint (t + 1) = Some (Some x)"
  proof (rule Suc.hyps(1))
    show "n = unat x - unat (t + 1)" using Suc.hyps(2) nx(2) by linarith
    show "unat (t + 1) \<le> unat x" using lt nx(2) by linarith
    show "\<forall>y. unat (t + 1) \<le> unat y \<and> unat y < unat x \<longrightarrow> y \<in> in_use \<and> y \<noteq> hint"
      using Suc.prems(5) nx(2) by auto
  qed (use Suc.prems in auto)
  then show ?case using scan_step [OF tin(2) tin(1), of tmin tmax] nx(1) by simp
qed

lemma scan_ascend_hint:
  assumes "unat t \<le> unat hint" and "unat hint \<le> unat tmax"
    and "\<forall>y. unat t \<le> unat y \<and> unat y < unat hint \<longrightarrow> y \<in> in_use"
  shows "allocate_scan in_use tmin tmax hint t = Some None"
  using assms
proof (induction "unat hint - unat t" arbitrary: t)
  case 0
  then have "t = hint" by (simp add: word_unat_eq_iff)
  then show ?case using scan_hint by simp
next
  case (Suc n)
  then have lt: "unat t < unat hint" by linarith
  then have tin: "t \<in> in_use" using Suc.prems(3) by auto
  have tne: "t \<noteq> hint" using lt by auto
  have ltm: "unat t < unat tmax" using lt Suc.prems(2) by linarith
  note nx = next_tnlid_below(1) [OF ltm, of tmin] next_tnlid_below(2) [OF ltm]
  have "allocate_scan in_use tmin tmax hint (t + 1) = Some None"
  proof (rule Suc.hyps(1))
    show "n = unat hint - unat (t + 1)" using Suc.hyps(2) nx(2) by linarith
    show "unat (t + 1) \<le> unat hint" using lt nx(2) by linarith
    show "\<forall>y. unat (t + 1) \<le> unat y \<and> unat y < unat hint \<longrightarrow> y \<in> in_use"
      using Suc.prems(3) nx(2) by auto
  qed (use Suc.prems in auto)
  then show ?case using scan_step [OF tne tin, of tmin tmax] nx(1) by simp
qed

lemma scan_wrap:
  assumes "unat t \<le> unat tmax" and "unat tmax < 2 ^ 32 - 1"
    and "\<forall>y. unat t \<le> unat y \<and> unat y \<le> unat tmax \<longrightarrow> y \<in> in_use \<and> y \<noteq> hint"
  shows "allocate_scan in_use tmin tmax hint t = allocate_scan in_use tmin tmax hint tmin"
  using assms
proof (induction "unat tmax - unat t" arbitrary: t)
  case 0
  then have eq: "unat t = unat tmax" by linarith
  have tin: "t \<in> in_use" "t \<noteq> hint" using 0 by auto
  show ?case using scan_step [OF tin(2) tin(1), of tmin tmax] next_tnlid_top [OF eq "0.prems"(2), of tmin] by simp
next
  case (Suc n)
  then have ltm: "unat t < unat tmax" by linarith
  have tin: "t \<in> in_use" "t \<noteq> hint" using Suc.prems by auto
  note nx = next_tnlid_below(1) [OF ltm, of tmin] next_tnlid_below(2) [OF ltm]
  have "allocate_scan in_use tmin tmax hint (t + 1) = allocate_scan in_use tmin tmax hint tmin"
  proof (rule Suc.hyps(1))
    show "n = unat tmax - unat (t + 1)" using Suc.hyps(2) nx(2) by linarith
    show "unat (t + 1) \<le> unat tmax" using ltm nx(2) by linarith
    show "\<forall>y. unat (t + 1) \<le> unat y \<and> unat y \<le> unat tmax \<longrightarrow> y \<in> in_use \<and> y \<noteq> hint"
      using Suc.prems(3) nx(2) by auto
  qed (use Suc.prems in auto)
  then show ?case using scan_step [OF tin(2) tin(1), of tmin tmax] nx(1) by simp
qed


lemma allocate_tnlid_found:
  "allocate_scan in_use tmin tmax hint (next_tnlid hint tmin tmax) = Some (Some x) \<Longrightarrow>
   allocate_tnlid in_use tmin tmax hint = Some (x, insert x in_use, x)"
  by (simp add: allocate_tnlid_def add_tnlid_def)

lemma allocate_tnlid_exhausted:
  "allocate_scan in_use tmin tmax hint (next_tnlid hint tmin tmax) = Some None \<Longrightarrow>
   allocate_tnlid in_use tmin tmax hint = Some (0, in_use, hint)"
  by (simp add: allocate_tnlid_def)

lemma allocate_tnlid_free:
  assumes rng: "1 \<le> tmin" "tmin \<le> tmax" "unat tmax < 2 ^ 32 - 1"
    and hint: "unat tmin \<le> unat hint + 1" "hint \<le> tmax"
    and free: "tmin \<le> x0" "x0 \<le> tmax" "x0 \<noteq> hint" "x0 \<notin> in_use"
  shows "\<exists>t. allocate_tnlid in_use tmin tmax hint = Some (t, insert t in_use, t) \<and> t \<noteq> 0 \<and>
           tmin \<le> t \<and> t \<le> tmax \<and> t \<noteq> hint \<and> t \<notin> in_use \<and>
           (\<forall>y. scanned_before tmin tmax hint t y \<longrightarrow> y \<in> in_use)"
proof -
  define cand where "cand y \<longleftrightarrow> tmin \<le> y \<and> y \<le> tmax \<and> y \<noteq> hint \<and> y \<notin> in_use" for y
  have c0: "cand x0" using free by (simp add: cand_def)
  have nz: "t \<noteq> 0" if "cand t" for t
    using that rng(1) by (auto simp: cand_def word_le_nat_alt)
  have hm: "unat hint \<le> unat tmax" using hint(2) by (simp add: word_le_nat_alt)
  show ?thesis
  proof (cases "\<exists>y. cand y \<and> unat hint < unat y")
    case True
    then obtain y0 where "cand y0 \<and> unat hint < unat y0" by blast
    from ex_has_least_nat [of "\<lambda>y. cand y \<and> unat hint < unat y", OF this, of unat]
    obtain x where x: "cand x" "unat hint < unat x"
      and least: "\<forall>y. cand y \<and> unat hint < unat y \<longrightarrow> unat x \<le> unat y"
      by blast
    have xm: "unat x \<le> unat tmax" using x(1) by (simp add: cand_def word_le_nat_alt)
    have ltm: "unat hint < unat tmax" using x(2) xm by linarith
    note nx = next_tnlid_below(1) [OF ltm, of tmin] next_tnlid_below(2) [OF ltm]
    have between: "y \<in> in_use \<and> y \<noteq> hint" if "unat hint < unat y" "unat y < unat x" for y
    proof -
      have "\<not> cand y" using least that by auto
      moreover have "tmin \<le> y" "y \<le> tmax" "y \<noteq> hint"
        using that hint(1) xm by (auto simp: word_le_nat_alt)
      ultimately show ?thesis by (simp add: cand_def)
    qed
    have "allocate_scan in_use tmin tmax hint (hint + 1) = Some (Some x)"
    proof (rule scan_ascend)
      show "unat (hint + 1) \<le> unat x" using nx(2) x(2) by linarith
      show "unat x \<le> unat tmax" by (rule xm)
      show "x \<notin> in_use" "x \<noteq> hint" using x(1) by (simp_all add: cand_def)
      show "\<forall>y. unat (hint + 1) \<le> unat y \<and> unat y < unat x \<longrightarrow> y \<in> in_use \<and> y \<noteq> hint"
        using between nx(2) by auto
    qed
    then have res: "allocate_tnlid in_use tmin tmax hint = Some (x, insert x in_use, x)"
      using allocate_tnlid_found [of in_use tmin tmax hint x] nx(1) by simp
    have "hint < x" using x(2) by (simp add: word_less_nat_alt)
    then have sb: "\<forall>y. scanned_before tmin tmax hint x y \<longrightarrow> y \<in> in_use"
      using between by (auto simp: scanned_before_def word_less_nat_alt)
    show ?thesis using res sb x(1) nz [OF x(1)] by (auto simp: cand_def)
  next
    case False
    from ex_has_least_nat [of cand, OF c0, of unat]
    obtain x where x: "cand x" and least: "\<forall>y. cand y \<longrightarrow> unat x \<le> unat y"
      by blast
    have "unat x \<noteq> unat hint" using x by (auto simp: cand_def word_unat_eq_iff)
    then have xh: "unat x < unat hint" using False x by (meson linorder_neqE_nat)
    have xm: "unat x \<le> unat tmax" "unat tmin \<le> unat x" using x by (simp_all add: cand_def word_le_nat_alt)
    have above: "y \<in> in_use \<and> y \<noteq> hint" if "unat hint < unat y" "unat y \<le> unat tmax" for y
    proof -
      have "\<not> cand y" using False that by auto
      moreover have "tmin \<le> y" "y \<le> tmax" "y \<noteq> hint"
        using that hint(1) by (auto simp: word_le_nat_alt)
      ultimately show ?thesis by (simp add: cand_def)
    qed
    have below: "y \<in> in_use \<and> y \<noteq> hint" if "unat tmin \<le> unat y" "unat y < unat x" for y
    proof -
      have "\<not> cand y" using least that by auto
      moreover have "tmin \<le> y" "y \<le> tmax" "y \<noteq> hint"
        using that xm xh by (auto simp: word_le_nat_alt)
      ultimately show ?thesis by (simp add: cand_def)
    qed
    have start: "allocate_scan in_use tmin tmax hint (next_tnlid hint tmin tmax)
        = allocate_scan in_use tmin tmax hint tmin"
    proof (cases "unat hint < unat tmax")
      case True
      note nx = next_tnlid_below(1) [OF True, of tmin] next_tnlid_below(2) [OF True]
      have "allocate_scan in_use tmin tmax hint (hint + 1) = allocate_scan in_use tmin tmax hint tmin"
      proof (rule scan_wrap)
        show "unat (hint + 1) \<le> unat tmax" using nx(2) True by linarith
        show "unat tmax < 2 ^ 32 - 1" by (rule rng(3))
        show "\<forall>y. unat (hint + 1) \<le> unat y \<and> unat y \<le> unat tmax \<longrightarrow> y \<in> in_use \<and> y \<noteq> hint"
          using above nx(2) by auto
      qed
      then show ?thesis by (simp add: nx(1))
    next
      case False
      then have "unat hint = unat tmax" using hm by linarith
      then show ?thesis using next_tnlid_top [OF _ rng(3), of hint tmin] by simp
    qed
    have "allocate_scan in_use tmin tmax hint tmin = Some (Some x)"
    proof (rule scan_ascend)
      show "unat tmin \<le> unat x" "unat x \<le> unat tmax" using xm by simp_all
      show "x \<notin> in_use" "x \<noteq> hint" using x by (simp_all add: cand_def)
      show "\<forall>y. unat tmin \<le> unat y \<and> unat y < unat x \<longrightarrow> y \<in> in_use \<and> y \<noteq> hint"
        using below by auto
    qed
    then have res: "allocate_tnlid in_use tmin tmax hint = Some (x, insert x in_use, x)"
      using allocate_tnlid_found [of in_use tmin tmax hint x] start by simp
    have "\<not> hint < x" using xh by (simp add: word_less_nat_alt)
    then have sb: "\<forall>y. scanned_before tmin tmax hint x y \<longrightarrow> y \<in> in_use"
      using above below by (auto simp: scanned_before_def word_less_nat_alt word_le_nat_alt)
    show ?thesis using res sb x nz [OF x] by (auto simp: cand_def)
  qed
qed

lemma allocate_tnlid_full:
  assumes rng: "tmin \<le> tmax" "unat tmax < 2 ^ 32 - 1"
    and hint: "tmin \<le> hint" "hint \<le> tmax"
    and full: "\<forall>y. tmin \<le> y \<and> y \<le> tmax \<and> y \<noteq> hint \<longrightarrow> y \<in> in_use"
  shows "allocate_tnlid in_use tmin tmax hint = Some (0, in_use, hint)"
proof -
  have hm: "unat hint \<le> unat tmax" "unat tmin \<le> unat hint"
    using hint by (simp_all add: word_le_nat_alt)
  have start: "allocate_scan in_use tmin tmax hint (next_tnlid hint tmin tmax)
      = allocate_scan in_use tmin tmax hint tmin"
  proof (cases "unat hint < unat tmax")
    case True
    note nx = next_tnlid_below(1) [OF True, of tmin] next_tnlid_below(2) [OF True]
    have "allocate_scan in_use tmin tmax hint (hint + 1) = allocate_scan in_use tmin tmax hint tmin"
    proof (rule scan_wrap)
      show "unat (hint + 1) \<le> unat tmax" using nx(2) True by linarith
      show "unat tmax < 2 ^ 32 - 1" by (rule rng(2))
      have "y \<in> in_use \<and> y \<noteq> hint" if "unat hint < unat y" "unat y \<le> unat tmax" for y
      proof -
        have "y \<noteq> hint" using that by auto
        moreover have "tmin \<le> y" "y \<le> tmax" using that hm by (simp_all add: word_le_nat_alt)
        ultimately show ?thesis using full by simp
      qed
      then show "\<forall>y. unat (hint + 1) \<le> unat y \<and> unat y \<le> unat tmax \<longrightarrow> y \<in> in_use \<and> y \<noteq> hint"
        using nx(2) by auto
    qed
    then show ?thesis by (simp add: nx(1))
  next
    case False
    then have "unat hint = unat tmax" using hm by linarith
    then show ?thesis using next_tnlid_top [OF _ rng(2), of hint tmin] by simp
  qed
  have "allocate_scan in_use tmin tmax hint tmin = Some None"
  proof (rule scan_ascend_hint)
    show "unat tmin \<le> unat hint" "unat hint \<le> unat tmax" using hm by simp_all
    have "y \<in> in_use" if "unat tmin \<le> unat y" "unat y < unat hint" for y
    proof -
      have "y \<noteq> hint" using that by auto
      moreover have "tmin \<le> y" "y \<le> tmax" using that hm by (simp_all add: word_le_nat_alt)
      ultimately show ?thesis using full by simp
    qed
    then show "\<forall>y. unat tmin \<le> unat y \<and> unat y < unat hint \<longrightarrow> y \<in> in_use"
      by auto
  qed
  then show ?thesis using allocate_tnlid_exhausted [of in_use tmin tmax hint] start by simp
qed


lemma scan_diverges:
  assumes full: "\<forall>y. tmin \<le> y \<and> y \<le> tmax \<longrightarrow> y \<in> in_use"
    and out: "\<not> (tmin \<le> hint \<and> hint \<le> tmax)"
    and rng: "tmin \<le> tmax" "unat tmax < 2 ^ 32 - 1"
    and t: "tmin \<le> t" "t \<le> tmax"
  shows "allocate_scan in_use tmin tmax hint t = None"
proof (rule ccontr)
  assume "allocate_scan in_use tmin tmax hint t \<noteq> None"
  then obtain r where "allocate_scan in_use tmin tmax hint t = Some r" by blast
  then show False using full out rng t
  proof (induction rule: allocate_scan.raw_induct [rotated 1, consumes 1])
    case (1 allocate_scan in_use tmin tmax hint tnlid r)
    have ne: "tnlid \<noteq> hint" using "1.prems" by auto
    have used: "tnlid \<in> in_use" using "1.prems" by auto
    have nxt: "tmin \<le> next_tnlid tnlid tmin tmax \<and> next_tnlid tnlid tmin tmax \<le> tmax"
    proof (cases "unat tnlid < unat tmax")
      case True
      have "unat (tnlid + 1) = unat tnlid + 1" using True "1.prems" by (simp add: unat_word_ariths)
      then show ?thesis using True "1.prems" by (auto simp: next_tnlid_def word_le_nat_alt)
    next
      case False
      then have "unat tnlid = unat tmax" using "1.prems" by (simp add: word_le_nat_alt)
      then have "unat (tnlid + 1) = unat tmax + 1" using "1.prems" by (simp add: unat_word_ariths)
      then have "\<not> tnlid + 1 \<le> tmax" by (simp add: word_le_nat_alt)
      then show ?thesis using "1.prems" by (simp add: next_tnlid_def)
    qed
    from "1.hyps" ne used have "allocate_scan in_use tmin tmax hint (next_tnlid tnlid tmin tmax) = Some r"
      by (simp add: tnlid_in_use_def)
    from "1.IH" [OF this] "1.prems" nxt show False by simp
  qed
qed

lemma allocate_tnlid_diverges:
  assumes full: "\<forall>y. tmin \<le> y \<and> y \<le> tmax \<longrightarrow> y \<in> in_use"
    and rng: "tmin \<le> tmax" "unat tmax < 2 ^ 32 - 1"
    and hint: "unat hint + 1 = unat tmin"
  shows "allocate_tnlid in_use tmin tmax hint = None"
proof -
  have lt: "unat hint < unat tmax" using hint rng(1) by (simp add: word_le_nat_alt)
  have "unat (hint + 1) = unat tmin" using next_tnlid_below(2) [OF lt] hint by simp
  then have "next_tnlid hint tmin tmax = tmin"
    using next_tnlid_below(1) [OF lt, of tmin] by (simp add: word_unat_eq_iff)
  moreover have out: "\<not> (tmin \<le> hint \<and> hint \<le> tmax)" using hint by (simp add: word_le_nat_alt)
  have "allocate_scan in_use tmin tmax hint tmin = None"
    by (rule scan_diverges [OF full out rng]) (simp_all add: rng(1))
  ultimately show ?thesis
    by (simp add: allocate_tnlid_def)
qed

text \<open>
  What the allocator does for \<open>1 \<le> tmin \<le> tmax < 2 ^ 32 - 1\<close> and a hint from \<open>tmin - 1\<close> to
  \<open>tmax\<close>: if some id of \<open>[tmin, tmax]\<close> other than the hint is free, it returns the first
  free id of the wrap-around scan that starts just after the hint (nonzero, in range, not
  the hint), inserts it and makes it the hint; and if the hint is in range and every other
  id of the range is in use, it returns 0 and changes nothing.
\<close>

theorem allocate_tnlid_spec:
  assumes "1 \<le> tmin" and "tmin \<le> tmax" and "unat tmax < 2 ^ 32 - 1"
    and "unat tmin \<le> unat hint + 1" and "hint \<le> tmax"
  shows "((\<exists>x. tmin \<le> x \<and> x \<le> tmax \<and> x \<noteq> hint \<and> x \<notin> in_use) \<longrightarrow>
           (\<exists>t. allocate_tnlid in_use tmin tmax hint = Some (t, insert t in_use, t) \<and> t \<noteq> 0 \<and>
              tmin \<le> t \<and> t \<le> tmax \<and> t \<noteq> hint \<and> t \<notin> in_use \<and>
              (\<forall>y. scanned_before tmin tmax hint t y \<longrightarrow> y \<in> in_use)))
       \<and> (tmin \<le> hint \<and> (\<forall>y. tmin \<le> y \<and> y \<le> tmax \<and> y \<noteq> hint \<longrightarrow> y \<in> in_use) \<longrightarrow>
            allocate_tnlid in_use tmin tmax hint = Some (0, in_use, hint))"
  using allocate_tnlid_free [OF assms] allocate_tnlid_full [OF assms(2,3) _ assms(5)]
  by blast

lemma allocate_tnlid_example_found: "allocate_tnlid {1, 2} 1 5 2 = Some (3, insert 3 {1, 2}, 3)"
  by (simp add: allocate_tnlid_def next_tnlid_def allocate_scan.simps tnlid_in_use_def add_tnlid_def)

lemma allocate_tnlid_example_exhausted: "allocate_tnlid {1, 3} 1 3 2 = Some (0, {1, 3}, 2)"
  by (simp add: allocate_tnlid_def next_tnlid_def allocate_scan.simps tnlid_in_use_def)

theorem allocate_tnlid_spec_witness:
  "(1::u32) \<le> 1 \<and> (1::u32) \<le> 5 \<and> unat (5::u32) < 2 ^ 32 - 1 \<and> unat (1::u32) \<le> unat (2::u32) + 1
   \<and> (2::u32) \<le> 5 \<and> (1::u32) \<le> 3 \<and> (3::u32) \<le> 5 \<and> (3::u32) \<noteq> 2 \<and> (3::u32) \<notin> {1, 2}
   \<and> allocate_tnlid {1, 2} 1 5 2 = Some (3, insert 3 {1, 2}, 3)
   \<and> (1::u32) \<le> 2 \<and> (2::u32) \<le> 3
   \<and> allocate_tnlid {1, 3} 1 3 2 = Some (0, {1, 3}, 2)"
  using allocate_tnlid_spec [of 1 5 2 "{1, 2}"] allocate_tnlid_spec [of 1 3 2 "{1, 3}"]
  by (simp add: allocate_tnlid_example_found allocate_tnlid_example_exhausted)

text \<open>
  C4: the allocator is to return 0, with its warning, only when the whole range is in use.
  The loop runs while \<^verbatim>\<open>tnlid != *hint\<close>, so the hint itself is never probed.  With the
  datapath key range \<open>[1, 2 ^ 24 - 1]\<close>, hint 7 and every id but 7 in use, id 7 is free and
  the allocator warns that all ids are exhausted and returns 0.  With the initial hint 0 and
  every id of the range in use, the scan never meets the hint and the allocator does not
  return at all.
\<close>

theorem allocate_tnlid_exhaustion:
  "allocate_tnlid ({1..16777215} - {7}) 1 16777215 7 = Some (0, {1..16777215} - {7}, 7)
   \<and> (7::u32) \<notin> {1..16777215} - {7} \<and> (1::u32) \<le> 7 \<and> (7::u32) \<le> 16777215
   \<and> allocate_tnlid {1..16777215} 1 16777215 0 = None"
proof -
  have a: "allocate_tnlid ({1..16777215} - {7}) 1 16777215 7 = Some (0, {1..16777215} - {7}, 7)"
    by (rule allocate_tnlid_full) simp_all
  have b: "allocate_tnlid {1..16777215} 1 16777215 (0::u32) = None"
    by (rule allocate_tnlid_diverges) simp_all
  show ?thesis using a b by simp
qed

section \<open>Properties of the IGMP port extraction\<close>

lemma ovn_port_find_Some: "ovn_port_find ports name = Some p \<Longrightarrow> p < length ports \<and> op_key (ports ! p) = name"
  by (auto simp: ovn_port_find_def find_Some_iff)

lemma peer_relay_valid:
  assumes "pointers_valid ports dps" and "port \<in> set ports"
  shows "\<exists>b. peer_relay ports dps port = Inr b"
proof -
  have a: "case op_peer port of None \<Rightarrow> True | Some pp \<Rightarrow> pp < length ports"
    using assms by (auto simp: pointers_valid_def)
  show ?thesis
  proof (cases "op_peer port")
    case None
    then show ?thesis by (auto simp: peer_relay_def)
  next
    case (Some pp)
    then have pp: "pp < length ports" using a by simp
    then have "ports ! pp \<in> set ports" by simp
    then have "case op_od (ports ! pp) of None \<Rightarrow> True | Some d \<Rightarrow> d < length dps"
      using assms(1) by (auto simp: pointers_valid_def)
    then show ?thesis using Some pp
      by (cases "op_od (ports ! pp)") (auto simp: peer_relay_def deref_def)
  qed
qed

lemma igmp_ports_loop_missing:
  "\<exists>n \<in> set names. ovn_port_find ports n = None \<Longrightarrow> pointers_valid ports dps \<Longrightarrow>
   igmp_ports_loop ports dps names acc = Inl NullDeref"
proof (induction names arbitrary: acc)
  case Nil
  then show ?case by simp
next
  case (Cons name names)
  show ?case
  proof (cases "ovn_port_find ports name")
    case None
    then show ?thesis by simp
  next
    case (Some p)
    then have rest: "\<exists>n \<in> set names. ovn_port_find ports n = None" using Cons.prems(1) by auto
    have p: "p < length ports" using ovn_port_find_Some [OF Some] by simp
    then obtain b where b: "peer_relay ports dps (ports ! p) = Inr b"
      using peer_relay_valid [OF Cons.prems(2), of "ports ! p"] by auto
    show ?thesis
      using Some b Cons.IH [OF rest Cons.prems(2)] by (cases b) (simp_all add: Let_def)
  qed
qed

lemma igmp_ports_loop_found:
  "\<forall>n \<in> set names. ovn_port_find ports n \<noteq> None \<Longrightarrow> pointers_valid ports dps \<Longrightarrow>
   \<exists>ps. igmp_ports_loop ports dps names acc = Inr ps \<and> set ps \<subseteq> set acc \<union> {p. p < length ports}"
proof (induction names arbitrary: acc)
  case Nil
  then show ?case by simp
next
  case (Cons name names)
  then obtain p where Some: "ovn_port_find ports name = Some p" by auto
  have rest: "\<forall>n \<in> set names. ovn_port_find ports n \<noteq> None" using Cons.prems(1) by auto
  have p: "p < length ports" using ovn_port_find_Some [OF Some] by simp
  then obtain b where b: "peer_relay ports dps (ports ! p) = Inr b"
    using peer_relay_valid [OF Cons.prems(2), of "ports ! p"] by auto
  show ?case
    using Some b p Cons.IH [OF rest Cons.prems(2), of acc] Cons.IH [OF rest Cons.prems(2), of "acc @ [p]"]
    by (cases b) (auto simp: Let_def)
qed

text \<open>
  C9: with a well-formed port graph, \<^verbatim>\<open>ovn_igmp_group_get_ports\<close> returns its array exactly
  when every \<^verbatim>\<open>logical_port\<close> of the group is in the port table; as soon as one is
  missing, the read of \<^verbatim>\<open>port->mcast_info.flood\<close> dereferences NULL, before the test of
  the stored slot is reached.
\<close>

theorem igmp_get_ports_null_deref:
  assumes "pointers_valid ports dps"
  shows "((\<forall>n \<in> set logical_ports. ovn_port_find ports n \<noteq> None) \<longrightarrow>
            (\<exists>ps. ovn_igmp_group_get_ports logical_ports ports dps = Inr ps))
       \<and> ((\<exists>n \<in> set logical_ports. ovn_port_find ports n = None) \<longrightarrow>
            ovn_igmp_group_get_ports logical_ports ports dps = Inl NullDeref)"
  using igmp_ports_loop_found [OF _ assms, of logical_ports "[]"]
    igmp_ports_loop_missing [OF _ assms, of logical_ports "[]"]
  unfolding ovn_igmp_group_get_ports_def by blast

theorem igmp_get_ports_null_deref_witness:
  "pointers_valid
     [\<lparr>op_key = ''p1'', op_nbsp = None, op_nbrp = None, op_mcast_flood = False, op_derived = False,
        op_peer = None, op_od = Some 0\<rparr>] [\<lparr>od_rtr_relay = False\<rparr>]
   \<and> ovn_port_find
     [\<lparr>op_key = ''p1'', op_nbsp = None, op_nbrp = None, op_mcast_flood = False, op_derived = False,
        op_peer = None, op_od = Some 0\<rparr>] ''p1'' = Some 0
   \<and> ovn_igmp_group_get_ports [''p1'']
     [\<lparr>op_key = ''p1'', op_nbsp = None, op_nbrp = None, op_mcast_flood = False, op_derived = False,
        op_peer = None, op_od = Some 0\<rparr>] [\<lparr>od_rtr_relay = False\<rparr>] = Inr [0]
   \<and> ovn_port_find
     [\<lparr>op_key = ''p1'', op_nbsp = None, op_nbrp = None, op_mcast_flood = False, op_derived = False,
        op_peer = None, op_od = Some 0\<rparr>] ''p2'' = None
   \<and> ovn_igmp_group_get_ports [''p1'', ''p2'']
     [\<lparr>op_key = ''p1'', op_nbsp = None, op_nbrp = None, op_mcast_flood = False, op_derived = False,
        op_peer = None, op_od = Some 0\<rparr>] [\<lparr>od_rtr_relay = False\<rparr>] = Inl NullDeref"
proof -
  let ?ports = "[\<lparr>op_key = ''p1'', op_nbsp = None, op_nbrp = None, op_mcast_flood = False,
      op_derived = False, op_peer = None, op_od = Some 0\<rparr>]"
  let ?dps = "[\<lparr>od_rtr_relay = False\<rparr>]"
  have v: "pointers_valid ?ports ?dps" by (simp add: pointers_valid_def)
  have f1: "ovn_port_find ?ports ''p1'' = Some 0" by (simp add: ovn_port_find_def)
  have f2: "ovn_port_find ?ports ''p2'' = None" by (simp add: ovn_port_find_def)
  have r1: "ovn_igmp_group_get_ports [''p1''] ?ports ?dps = Inr [0]"
    by (simp add: ovn_igmp_group_get_ports_def f1 peer_relay_def)
  from igmp_get_ports_null_deref [OF v, of "[''p1'', ''p2'']"] f2
  have r2: "ovn_igmp_group_get_ports [''p1'', ''p2''] ?ports ?dps = Inl NullDeref" by simp
  from igmp_get_ports_null_deref [OF v, of "[''p1'']"] f1 v f2 r1 r2
  show ?thesis by simp
qed

section \<open>Peer links of the peering sweep\<close>

lemma same_config_fields:
  assumes "same_config ports' ports" and "i < length ports"
  shows "op_key (ports' ! i) = op_key (ports ! i)" "op_nbsp (ports' ! i) = op_nbsp (ports ! i)"
    "op_nbrp (ports' ! i) = op_nbrp (ports ! i)" "op_derived (ports' ! i) = op_derived (ports ! i)"
proof -
  have e: "(ports' ! i)\<lparr>op_peer := None\<rparr> = (ports ! i)\<lparr>op_peer := None\<rparr>"
    using assms by (simp add: same_config_def)
  have "op_key ((ports' ! i)\<lparr>op_peer := None\<rparr>) = op_key ((ports ! i)\<lparr>op_peer := None\<rparr>)"
    by (simp only: e)
  then show "op_key (ports' ! i) = op_key (ports ! i)" by simp
  have "op_nbsp ((ports' ! i)\<lparr>op_peer := None\<rparr>) = op_nbsp ((ports ! i)\<lparr>op_peer := None\<rparr>)"
    by (simp only: e)
  then show "op_nbsp (ports' ! i) = op_nbsp (ports ! i)" by simp
  have "op_nbrp ((ports' ! i)\<lparr>op_peer := None\<rparr>) = op_nbrp ((ports ! i)\<lparr>op_peer := None\<rparr>)"
    by (simp only: e)
  then show "op_nbrp (ports' ! i) = op_nbrp (ports ! i)" by simp
  have "op_derived ((ports' ! i)\<lparr>op_peer := None\<rparr>) = op_derived ((ports ! i)\<lparr>op_peer := None\<rparr>)"
    by (simp only: e)
  then show "op_derived (ports' ! i) = op_derived (ports ! i)" by simp
qed

lemma same_config_refl [simp]: "same_config ports ports"
  by (simp add: same_config_def)

lemma same_config_find:
  assumes "same_config ports' ports"
  shows "ovn_port_find ports' name = ovn_port_find ports name"
proof -
  have len: "length ports' = length ports" using assms by (simp add: same_config_def)
  have "find (\<lambda>i. op_key (ports' ! i) = name) [0..<length ports]
      = find (\<lambda>i. op_key (ports ! i) = name) [0..<length ports]"
    by (rule find_cong) (use same_config_fields(1) [OF assms] in auto)
  then show ?thesis by (simp add: ovn_port_find_def len)
qed

lemma same_config_branches:
  assumes "same_config ports' ports" and "i < length ports"
  shows "lsp_router_branch (ports' ! i) = lsp_router_branch (ports ! i)"
    and "lrp_peer_branch (ports' ! i) = lrp_peer_branch (ports ! i)"
  using same_config_fields [OF assms]
  by (auto simp: lsp_router_branch_def lrp_peer_branch_def split: option.splits)

lemma same_config_set_peer:
  assumes "same_config ports' ports"
  shows "same_config (set_peer ports' i j) ports"
proof (cases "i < length ports'")
  case True
  then show ?thesis
    using assms by (auto simp: same_config_def set_peer_def nth_list_update)
next
  case False
  then have "ports'[i := (ports' ! i)\<lparr>op_peer := Some j\<rparr>] = ports'"
    by (simp add: list_update_beyond)
  then show ?thesis using assms by (simp add: set_peer_def)
qed

lemma op_peer_set_peer:
  "p < length ports' \<Longrightarrow> op_peer (set_peer ports' i j ! p) = (if p = i then Some j else op_peer (ports' ! p))"
  by (simp add: set_peer_def nth_list_update)

lemma target_bounds:
  "sw_target ports i = Some j \<Longrightarrow> j < length ports"
  "rr_target ports i = Some j \<Longrightarrow> j < length ports"
  by (auto simp: sw_target_def rr_target_def dest: ovn_port_find_Some
      split: option.splits if_splits)

lemma connect_port_step:
  assumes sc: "same_config ports' ports" and i: "i < length ports"
  shows "same_config (connect_port ports' i) ports"
    and "\<forall>p < length ports. op_peer (connect_port ports' i ! p)
           = peer_step (sw_target ports) (rr_target ports) (\<lambda>q. op_peer (ports' ! q)) i p"
proof -
  have len: "length ports' = length ports" using sc by (simp add: same_config_def)
  note br = same_config_branches [OF sc i]
  note fi = same_config_find [OF sc]
  have nbrp: "op_nbrp (ports' ! j) = op_nbrp (ports ! j)" if "j < length ports" for j
    using same_config_fields(3) [OF sc that] .
  have cp: "connect_port ports' i =
      (case sw_target ports i of
         Some j \<Rightarrow> set_peer (set_peer ports' j i) i j
       | None \<Rightarrow> (case rr_target ports i of Some j \<Rightarrow> set_peer ports' i j | None \<Rightarrow> ports'))"
    unfolding connect_port_def sw_target_def rr_target_def br fi
    by (auto split: option.splits dest!: ovn_port_find_Some simp: nbrp)
  show "same_config (connect_port ports' i) ports"
    unfolding cp using sc by (auto split: option.splits intro: same_config_set_peer)
  show "\<forall>p < length ports. op_peer (connect_port ports' i ! p)
           = peer_step (sw_target ports) (rr_target ports) (\<lambda>q. op_peer (ports' ! q)) i p"
    unfolding cp peer_step_def
    by (auto split: option.splits simp: op_peer_set_peer len set_peer_def)
qed

lemma tc_T:
  assumes "targets_consistent T R n" and "i < n" and "T i = Some j"
  shows "j < n" and "\<And>i'. i' < n \<Longrightarrow> T i' = Some j \<Longrightarrow> i' = i" and "T j = None" and "R j = None" and "R i = None"
  using assms unfolding targets_consistent_def by blast+

lemma tc_R:
  assumes "targets_consistent T R n" and "i < n" and "R i = Some j"
  shows "j < n" and "R j = Some i"
  using assms unfolding targets_consistent_def by blast+

lemma peer_inv_I:
  assumes "\<And>p q. p < n \<Longrightarrow> pe p = Some q \<longleftrightarrow>
        ((p < k \<and> T p = Some q) \<or> (q < k \<and> T q = Some p) \<or> (p < k \<and> R p = Some q))"
  shows "peer_inv T R n k pe"
  using assms unfolding peer_inv_def by simp

lemma peer_inv_D:
  assumes "peer_inv T R n k pe" and "p < n"
  shows "pe p = Some q \<longleftrightarrow>
        ((p < k \<and> T p = Some q) \<or> (q < k \<and> T q = Some p) \<or> (p < k \<and> R p = Some q))"
  using assms unfolding peer_inv_def by simp

lemma peer_inv_step:
  assumes tc: "targets_consistent T R n" and k: "k < n" and inv: "peer_inv T R n k pe"
  shows "peer_inv T R n (Suc k) (peer_step T R pe k)"
proof (rule peer_inv_I)
  fix p q assume p: "p < n"
  note old = peer_inv_D [OF inv p, of q]
  have qk: "(q < Suc k \<and> T q = Some p) \<longleftrightarrow> (q < k \<and> T q = Some p) \<or> (q = k \<and> T k = Some p)"
    by (auto simp: less_Suc_eq)
  show "peer_step T R pe k p = Some q \<longleftrightarrow>
      ((p < Suc k \<and> T p = Some q) \<or> (q < Suc k \<and> T q = Some p) \<or> (p < Suc k \<and> R p = Some q))"
  proof (cases "T k")
    case (Some j)
    note c = tc_T [OF tc k Some]
    have jk: "j \<noteq> k" using c(3) Some by auto
    have pe': "peer_step T R pe k = (pe(j := Some k))(k := Some j)"
      by (simp add: peer_step_def Some)
    consider "p = k" | "p = j" | "p \<noteq> k" "p \<noteq> j" by blast
    then show ?thesis
    proof cases
      case 1
      have a: "\<not> (q < Suc k \<and> T q = Some k)"
      proof
        assume h: "q < Suc k \<and> T q = Some k"
        then have qn: "q < n" and tq: "T q = Some k" using k by simp_all
        have "T k = None" by (rule tc_T(3) [OF tc qn tq])
        with Some show False by simp
      qed
      have l: "peer_step T R pe k p = Some q \<longleftrightarrow> q = j" using 1 pe' by auto
      have r: "((p < Suc k \<and> T p = Some q) \<or> (q < Suc k \<and> T q = Some p) \<or> (p < Suc k \<and> R p = Some q)) \<longleftrightarrow> q = j"
        using 1 a Some c(5) by auto
      show ?thesis unfolding l r ..
    next
      case 2
      have l: "peer_step T R pe k p = Some q \<longleftrightarrow> q = k" using 2 jk pe' by auto
      have b: "(q < Suc k \<and> T q = Some j) \<longleftrightarrow> q = k"
      proof
        assume h: "q < Suc k \<and> T q = Some j"
        then have qn: "q < n" and tq: "T q = Some j" using k by simp_all
        show "q = k" by (rule c(2) [OF qn tq])
      next
        assume "q = k" then show "q < Suc k \<and> T q = Some j" using Some by simp
      qed
      have r: "((p < Suc k \<and> T p = Some q) \<or> (q < Suc k \<and> T q = Some p) \<or> (p < Suc k \<and> R p = Some q)) \<longleftrightarrow> q = k"
        using 2 b c(3,4) by auto
      show ?thesis unfolding l r ..
    next
      case 3
      have l: "peer_step T R pe k p = pe p" using 3 pe' by simp
      have e1: "p < Suc k \<longleftrightarrow> p < k" using 3 by (simp add: less_Suc_eq)
      have e2: "(q < Suc k \<and> T q = Some p) \<longleftrightarrow> (q < k \<and> T q = Some p)"
        using qk 3 Some by auto
      show ?thesis unfolding l e1 e2 by (rule old)
    qed
  next
    case None
    show ?thesis
    proof (cases "R k")
      case (Some j)
      have pe': "peer_step T R pe k = pe(k := Some j)"
        by (simp add: peer_step_def None Some)
      show ?thesis
      proof (cases "p = k")
        case True
        have a: "\<not> (q < Suc k \<and> T q = Some k)"
        proof
          assume h: "q < Suc k \<and> T q = Some k"
          then have qn: "q < n" and tq: "T q = Some k" using k by simp_all
          have "R k = None" by (rule tc_T(4) [OF tc qn tq])
          with Some show False by simp
        qed
        have l: "peer_step T R pe k p = Some q \<longleftrightarrow> q = j" using True pe' by auto
        have r: "((p < Suc k \<and> T p = Some q) \<or> (q < Suc k \<and> T q = Some p) \<or> (p < Suc k \<and> R p = Some q)) \<longleftrightarrow> q = j"
          using True a None Some by auto
        show ?thesis unfolding l r ..
      next
        case False
        have l: "peer_step T R pe k p = pe p" using False pe' by simp
        have e1: "p < Suc k \<longleftrightarrow> p < k" using False by (simp add: less_Suc_eq)
        have e2: "(q < Suc k \<and> T q = Some p) \<longleftrightarrow> (q < k \<and> T q = Some p)"
          using qk None by auto
        show ?thesis unfolding l e1 e2 by (rule old)
      qed
    next
      case Rn: None
      have l: "peer_step T R pe k = pe" by (simp add: peer_step_def None Rn)
      have e2: "(q < Suc k \<and> T q = Some p) \<longleftrightarrow> (q < k \<and> T q = Some p)"
        using qk None by auto
      have e1: "(p < Suc k \<and> T p = Some q) \<longleftrightarrow> (p < k \<and> T p = Some q)"
        using None by (auto simp: less_Suc_eq)
      have e3: "(p < Suc k \<and> R p = Some q) \<longleftrightarrow> (p < k \<and> R p = Some q)"
        using Rn by (auto simp: less_Suc_eq)
      show ?thesis unfolding l e1 e2 e3 by (rule old)
    qed
  qed
qed

lemma peer_inv_fold:
  assumes tc: "targets_consistent T R n" and inv: "peer_inv T R n 0 pe"
  shows "k \<le> n \<Longrightarrow> peer_inv T R n k (foldl (peer_step T R) pe [0..<k])"
proof (induction k)
  case 0
  then show ?case using inv by simp
next
  case (Suc k)
  then have k: "k < n" and IH: "peer_inv T R n k (foldl (peer_step T R) pe [0..<k])" by simp_all
  show ?case using peer_inv_step [OF tc k IH] by simp
qed

lemma peer_inv_init: "peer_inv T R n 0 (\<lambda>p. None)"
  by (simp add: peer_inv_def)

lemma peer_inv_symmetric:
  assumes tc: "targets_consistent T R n" and inv: "peer_inv T R n n pe"
    and p: "p < n" and pq: "pe p = Some q"
  shows "q < n \<and> pe q = Some p"
proof -
  from peer_inv_D [OF inv p, of q] pq
  consider "T p = Some q" | "q < n" "T q = Some p" | "R p = Some q" by auto
  then show ?thesis
  proof cases
    case 1
    have q: "q < n" by (rule tc_T(1) [OF tc p 1])
    show ?thesis using peer_inv_D [OF inv q, of p] q p 1 by simp
  next
    case 2
    show ?thesis using peer_inv_D [OF inv 2(1), of p] 2 by simp
  next
    case 3
    have q: "q < n" and r: "R q = Some p" using tc_R [OF tc p 3] by simp_all
    show ?thesis using peer_inv_D [OF inv q, of p] q r by simp
  qed
qed

lemma peer_step_cong:
  "pe p = pe' p \<Longrightarrow> peer_step T R pe i p = peer_step T R pe' i p"
  by (simp add: peer_step_def split: option.splits)

lemma connect_fold:
  assumes ks: "\<forall>k \<in> set ks. k < length ports"
  shows "same_config (foldl connect_port ports ks) ports \<and>
         (\<forall>p < length ports. op_peer (foldl connect_port ports ks ! p)
            = foldl (peer_step (sw_target ports) (rr_target ports)) (\<lambda>q. op_peer (ports ! q)) ks p)"
  using ks
proof (induction ks rule: rev_induct)
  case Nil
  then show ?case by simp
next
  case (snoc k ks)
  let ?F = "foldl connect_port ports ks"
  let ?G = "foldl (peer_step (sw_target ports) (rr_target ports)) (\<lambda>q. op_peer (ports ! q)) ks"
  have k: "k < length ports" using snoc.prems by simp
  have sc: "same_config ?F ports" and eq: "\<forall>p < length ports. op_peer (?F ! p) = ?G p"
    using snoc.IH snoc.prems by simp_all
  note st = connect_port_step [OF sc k]
  have "op_peer (connect_port ?F k ! p) = peer_step (sw_target ports) (rr_target ports) ?G k p"
    if p: "p < length ports" for p
  proof -
    have "op_peer (connect_port ?F k ! p)
        = peer_step (sw_target ports) (rr_target ports) (\<lambda>q. op_peer (?F ! q)) k p"
      using st(2) p by simp
    also have "\<dots> = peer_step (sw_target ports) (rr_target ports) ?G k p"
      by (rule peer_step_cong) (use eq p in simp)
    finally show ?thesis .
  qed
  then show ?case using st(1) by simp
qed

lemma sw_target_rr_target:
  "sw_target ports i = Some j \<Longrightarrow> rr_target ports i = None"
  by (auto simp: sw_target_def rr_target_def split: option.splits)

lemma peering_targets_consistent:
  assumes "peering_consistent ports"
  shows "targets_consistent (sw_target ports) (rr_target ports) (length ports)"
proof -
  have a: "j < length ports \<and> (\<forall>i'<length ports. sw_target ports i' = Some j \<longrightarrow> i' = i) \<and>
      sw_target ports j = None \<and> rr_target ports j = None \<and> rr_target ports i = None"
    if i: "i < length ports" and t: "sw_target ports i = Some j" for i j
  proof (intro conjI)
    show "j < length ports" by (rule target_bounds(1) [OF t])
    show "\<forall>i'<length ports. sw_target ports i' = Some j \<longrightarrow> i' = i"
      using assms i t unfolding peering_consistent_def by blast
    show "sw_target ports j = None" using assms i t unfolding peering_consistent_def by blast
    show "rr_target ports j = None" using assms i t unfolding peering_consistent_def by blast
    show "rr_target ports i = None" by (rule sw_target_rr_target [OF t])
  qed
  have b: "j < length ports \<and> rr_target ports j = Some i"
    if i: "i < length ports" and t: "rr_target ports i = Some j" for i j
  proof (intro conjI)
    show "j < length ports" by (rule target_bounds(2) [OF t])
    show "rr_target ports j = Some i" using assms i t unfolding peering_consistent_def by blast
  qed
  show ?thesis unfolding targets_consistent_def using a b by blast
qed

lemma connect_peers_inv:
  assumes pc: "peering_consistent ports" and init: "list_all (\<lambda>op. op_peer op = None) ports"
  shows "peer_inv (sw_target ports) (rr_target ports) (length ports) (length ports)
           (foldl (peer_step (sw_target ports) (rr_target ports)) (\<lambda>q. op_peer (ports ! q))
              [0..<length ports])"
proof -
  have "peer_inv (sw_target ports) (rr_target ports) (length ports) 0 (\<lambda>q. op_peer (ports ! q))"
    using init by (simp add: peer_inv_def list_all_length)
  from peer_inv_fold [OF peering_targets_consistent [OF pc] this, of "length ports"]
  show ?thesis by simp
qed

lemma upt_0_2: "[0..<2] = [0, Suc 0]"
  by (simp add: numeral_2_eq_2)

lemma paired_targets:
  "sw_target paired_ports 0 = Some 1" "sw_target paired_ports (Suc 0) = None"
  "rr_target paired_ports 0 = None" "rr_target paired_ports (Suc 0) = None"
  by (simp_all add: sw_target_def rr_target_def paired_ports_def lsp_router_branch_def
      lrp_peer_branch_def smap_get_def ovn_port_find_def upt_0_2)

lemma paired_consistent: "peering_consistent paired_ports"
proof -
  have len: "length paired_ports = 2" by (simp add: paired_ports_def)
  have lt: "i < 2 \<longleftrightarrow> i = 0 \<or> i = Suc 0" for i :: nat by auto
  show ?thesis unfolding peering_consistent_def len lt using paired_targets by auto
qed

lemma paired_connect:
  "map op_peer (connect_peers paired_ports) = [Some 1, Some 0]"
  by (simp add: connect_peers_def connect_port_def set_peer_def paired_ports_def
      lsp_router_branch_def lrp_peer_branch_def smap_get_def ovn_port_find_def upt_0_2)

text \<open>
  Where the sweep does keep the promise of the comment on \<^verbatim>\<open>struct ovn_port.peer\<close>: on a
  freshly joined port table (every \<^verbatim>\<open>peer\<close> field NULL) whose configuration is reciprocal, the
  peer links that the sweep of \<^verbatim>\<open>join_logical_ports\<close> leaves behind are symmetric.  Reciprocal
  means that a router port is the \<^verbatim>\<open>router-port\<close> of at most one switch port of type
  \<^verbatim>\<open>"router"\<close>, that such a router port has no link of its own, and that two router ports
  linked through the \<^verbatim>\<open>peer\<close> column name each other.
\<close>

theorem peers_symmetric:
  assumes "peering_consistent ports" and "list_all (\<lambda>op. op_peer op = None) ports"
    and "p < length ports" and "op_peer (connect_peers ports ! p) = Some q"
  shows "q < length ports \<and> op_peer (connect_peers ports ! q) = Some p"
proof -
  let ?G = "foldl (peer_step (sw_target ports) (rr_target ports)) (\<lambda>q. op_peer (ports ! q))
              [0..<length ports]"
  have eq: "\<forall>p < length ports. op_peer (connect_peers ports ! p) = ?G p"
    using connect_fold [of "[0..<length ports]" ports] by (simp add: connect_peers_def)
  have "?G p = Some q" using eq assms(3,4) by simp
  from peer_inv_symmetric [OF peering_targets_consistent [OF assms(1)]
      connect_peers_inv [OF assms(1,2)] assms(3) this]
  show ?thesis using eq by simp
qed

theorem peers_symmetric_witness:
  "peering_consistent paired_ports
   \<and> list_all (\<lambda>op. op_peer op = None) paired_ports
   \<and> 0 < length paired_ports
   \<and> op_peer (connect_peers paired_ports ! 0) = Some 1
   \<and> 1 < length paired_ports
   \<and> op_peer (connect_peers paired_ports ! 1) = Some 0"
proof -
  have h2: "list_all (\<lambda>op. op_peer op = None) paired_ports" by (simp add: paired_ports_def)
  have h3: "0 < length paired_ports" by (simp add: paired_ports_def)
  have len: "length (connect_peers paired_ports) = 2"
    using arg_cong [OF paired_connect, of length] by simp
  have h4: "op_peer (connect_peers paired_ports ! 0) = Some 1"
    using arg_cong [OF paired_connect, of "\<lambda>l. l ! 0"] len by simp
  from peers_symmetric [OF paired_consistent h2 h3 h4] paired_consistent h2 h3 h4
  show ?thesis by blast
qed

text \<open>
  C3: peer links are to be symmetric, and the comment on \<^verbatim>\<open>struct ovn_port.peer\<close> says that two
  connected logical router ports have each other as peer.  The router-port branch of the
  sweep stores only \<^verbatim>\<open>op->peer = peer\<close>, where the switch-port branch also stores
  \<^verbatim>\<open>peer->peer = op\<close>, and it has no test that the peer names the port back.  When \<^verbatim>\<open>lrp-a\<close>
  names \<^verbatim>\<open>lrp-b\<close> in its \<^verbatim>\<open>peer\<close> column and \<^verbatim>\<open>lrp-b\<close> names nothing, the sweep leaves the peer
  field of \<^verbatim>\<open>lrp-a\<close> pointing to \<^verbatim>\<open>lrp-b\<close> and the peer field of \<^verbatim>\<open>lrp-b\<close> NULL.
\<close>

theorem one_sided_peer_link:
  "op_peer (connect_peers one_sided_ports ! 0) = Some 1
   \<and> op_peer (connect_peers one_sided_ports ! 1) = None"
  by (simp add: connect_peers_def connect_port_def set_peer_def one_sided_ports_def
      lsp_router_branch_def lrp_peer_branch_def smap_get_def ovn_port_find_def upt_0_2)

section \<open>Tunnel keys of rows present in both databases\<close>

lemma keys_kept_refl: "keys_kept key n t t"
  by (simp add: keys_kept_def)

lemma keys_kept_trans:
  "keys_kept key n t t1 \<Longrightarrow> keys_kept key n t1 t2 \<Longrightarrow> keys_kept key n t t2"
  by (simp add: keys_kept_def)

lemma keys_kept_fresh: "keys_kept key n t t1 \<Longrightarrow> n \<le> sb_fresh t \<Longrightarrow> n \<le> sb_fresh t1"
  by (simp add: keys_kept_def)

lemma sbrec_insert_kept:
  assumes "sbrec_insert row t = (r, t1)" and "n \<le> sb_fresh t"
  shows "keys_kept key n t t1" and "n \<le> r"
  using assms by (auto simp: sbrec_insert_def keys_kept_def)

lemma sbrec_update_kept_fresh:
  assumes "sbrec_update r f t = Inr t1" and "n \<le> r"
  shows "keys_kept key n t t1"
  using assms by (auto simp: sbrec_update_def keys_kept_def split: option.splits)

lemma sbrec_update_kept_column:
  assumes "sbrec_update r f t = Inr t1" and "\<And>row. key (f row) = key row"
  shows "keys_kept key n t t1"
  using assms by (auto simp: sbrec_update_def keys_kept_def split: option.splits)

lemma update_external_ids_kept:
  assumes "ovn_datapath_update_external_ids od t = Inr t1"
  shows "keys_kept dp_tunnel_key n t t1"
proof -
  from assms obtain r ids where
    "sbrec_update r (\<lambda>row. row\<lparr>dp_external_ids := ids\<rparr>) t = Inr t1"
    by (auto simp: ovn_datapath_update_external_ids_def split: option.splits sum.splits)
  then show ?thesis by (rule sbrec_update_kept_column) simp
qed

lemma join_both_kept:
  "join_both ods t = Inr t1 \<Longrightarrow> keys_kept dp_tunnel_key n t t1"
proof (induction ods arbitrary: t)
  case Nil
  then show ?case by (simp add: keys_kept_refl)
next
  case (Cons od ods)
  then obtain t' where a: "ovn_datapath_update_external_ids od t = Inr t'"
    and b: "join_both ods t' = Inr t1"
    by (auto split: sum.splits)
  show ?case by (rule keys_kept_trans [OF update_external_ids_kept [OF a] Cons.IH [OF b]])
qed

lemma add_datapaths_kept:
  "add_datapaths ods t s h = Some (Inr (t', h', ods')) \<Longrightarrow> n \<le> sb_fresh t \<Longrightarrow>
   keys_kept dp_tunnel_key n t t'"
proof (induction ods arbitrary: t s h t' h' ods')
  case Nil
  then show ?case by (simp add: keys_kept_refl)
next
  case (Cons od ods)
  from Cons.prems(1) obtain k s1 h1 where al: "ovn_datapath_allocate_key s h = Some (k, s1, h1)"
    by (auto split: option.splits)
  show ?case
  proof (cases "k = 0")
    case True
    then show ?thesis using Cons.prems(1) al by (simp add: keys_kept_refl)
  next
    case False
    obtain r t1 where ins: "sbrec_insert \<lparr>dp_tunnel_key = 0, dp_external_ids = []\<rparr> t = (r, t1)"
      by (cases "sbrec_insert \<lparr>dp_tunnel_key = 0, dp_external_ids = []\<rparr> t") auto
    from Cons.prems(1) al False ins obtain t2 t3 ods2 where
      u1: "ovn_datapath_update_external_ids (od\<lparr>od_sb := Some r\<rparr>) t1 = Inr t2" and
      u2: "sbrec_update r (\<lambda>row. row\<lparr>dp_tunnel_key := uint k\<rparr>) t2 = Inr t3" and
      rec: "add_datapaths ods t3 s1 h1 = Some (Inr (t', h', ods2))"
      by (auto split: option.splits sum.splits)
    note k1 = sbrec_insert_kept(1) [OF ins Cons.prems(2), of dp_tunnel_key]
      sbrec_insert_kept(2) [OF ins Cons.prems(2)]
    note k2 = update_external_ids_kept [OF u1, of n]
    note k3 = sbrec_update_kept_fresh [OF u2 k1(2), of dp_tunnel_key]
    note k13 = keys_kept_trans [OF keys_kept_trans [OF k1(1) k2] k3]
    note k4 = Cons.IH [OF rec keys_kept_fresh [OF k13 Cons.prems(2)]]
    show ?thesis by (rule keys_kept_trans [OF k13 k4])
  qed
qed

lemma delete_sb_only_rows:
  "delete_sb_only sbs t = Inr t' \<Longrightarrow>
   sb_rows t' r = (if Some r \<in> set sbs then None else sb_rows t r)"
proof (induction sbs t rule: delete_sb_only.induct)
  case (1 t)
  then show ?case by simp
next
  case (2 sbs t)
  then show ?case by simp
next
  case (3 r' sbs t)
  then show ?case by (auto simp: sbrec_delete_def)
qed

lemma build_datapaths_kept:
  assumes "build_datapaths t hint sb_only nb_only both = Some (Inr (t', hint', nb_only'))"
    and "r < sb_fresh t"
  shows "if Some r \<in> od_sb ` set sb_only then sb_rows t' r = None
         else map_option dp_tunnel_key (sb_rows t' r) = map_option dp_tunnel_key (sb_rows t r)"
proof -
  define m where "m t0 =
      (if nb_only \<noteq> [] then
         (case index_dp_tnlids t0 both {} of
            Inl e \<Rightarrow> Some (Inl e)
          | Inr dp_tnlids \<Rightarrow> add_datapaths nb_only t0 dp_tnlids hint)
       else Some (Inr (t0, hint, nb_only)))" for t0
  have "(case join_both both t of
           Inl e \<Rightarrow> Some (Inl e)
         | Inr t0 \<Rightarrow>
             (case m t0 of
                None \<Rightarrow> None
              | Some (Inl e) \<Rightarrow> Some (Inl e)
              | Some (Inr (t1, hint1, nb_only')) \<Rightarrow>
                  (case delete_sb_only (map od_sb sb_only) t1 of
                     Inl e \<Rightarrow> Some (Inl e)
                   | Inr t2 \<Rightarrow> Some (Inr (t2, hint1, nb_only'))))) = Some (Inr (t', hint', nb_only'))"
    using assms(1) unfolding build_datapaths_def m_def .
  then obtain t0 t1 where
    j: "join_both both t = Inr t0" and
    a: "m t0 = Some (Inr (t1, hint', nb_only'))" and
    d: "delete_sb_only (map od_sb sb_only) t1 = Inr t'"
    by (auto split: option.splits sum.splits)
  note k0 = join_both_kept [OF j, of "sb_fresh t"]
  have f0: "sb_fresh t \<le> sb_fresh t0" using keys_kept_fresh [OF k0] by simp
  have k1: "keys_kept dp_tunnel_key (sb_fresh t) t0 t1"
  proof (cases "nb_only = []")
    case True
    then show ?thesis using a by (simp add: m_def keys_kept_refl)
  next
    case False
    then obtain s where "add_datapaths nb_only t0 s hint = Some (Inr (t1, hint', nb_only'))"
      using a by (auto simp: m_def split: sum.splits)
    then show ?thesis using f0 by (rule add_datapaths_kept)
  qed
  have "map_option dp_tunnel_key (sb_rows t1 r) = map_option dp_tunnel_key (sb_rows t r)"
    using keys_kept_trans [OF k0 k1] assms(2) by (simp add: keys_kept_def)
  then show ?thesis using delete_sb_only_rows [OF d, of r] by simp
qed

lemma update_sbrec_kept:
  assumes "ovn_port_update_sbrec cols op t = Inr t1"
  shows "keys_kept pb_tunnel_key n t t1"
proof -
  from assms obtain r where
    "sbrec_update r (\<lambda>row. row\<lparr>pb_columns := cols op (pb_columns row)\<rparr>) t = Inr t1"
    by (auto simp: ovn_port_update_sbrec_def split: option.splits)
  then show ?thesis by (rule sbrec_update_kept_column) simp
qed

lemma update_both_ports_kept:
  "update_both_ports cols ops t ods = Inr (t', ods') \<Longrightarrow> keys_kept pb_tunnel_key n t t'"
proof (induction ops arbitrary: t ods)
  case Nil
  then show ?case by (simp add: keys_kept_refl)
next
  case (Cons op ops)
  from Cons.prems obtain t1 ods1 where
    u: "ovn_port_update_sbrec cols op t = Inr t1" and
    rec: "update_both_ports cols ops t1 ods1 = Inr (t', ods')"
    by (auto simp: Let_def split: option.splits sum.splits)
  show ?case by (rule keys_kept_trans [OF update_sbrec_kept [OF u] Cons.IH [OF rec]])
qed

lemma add_ports_kept:
  "add_ports cols ops t ods = Some (Inr (t', ods', ops')) \<Longrightarrow> n \<le> sb_fresh t \<Longrightarrow>
   keys_kept pb_tunnel_key n t t'"
proof (induction ops arbitrary: t ods t' ods' ops')
  case Nil
  then show ?case by (simp add: keys_kept_refl)
next
  case (Cons op ops)
  from Cons.prems(1) obtain d k od1 where d: "op_od op = Some d"
    and al: "ovn_port_allocate_key (ods d) = Some (k, od1)"
    by (auto split: option.splits)
  show ?case
  proof (cases "(ucast k :: 16 word) = 0")
    case True
    then obtain ops2 where "add_ports cols ops t (ods(d := od1)) = Some (Inr (t', ods', ops2))"
      using Cons.prems(1) d al by (auto simp: Let_def split: option.splits sum.splits)
    then show ?thesis using Cons.prems(2) by (rule Cons.IH)
  next
    case False
    obtain r t1 where
      ins: "sbrec_insert \<lparr>pb_tunnel_key = 0, pb_logical_port = [], pb_columns = []\<rparr> t = (r, t1)"
      by (cases "sbrec_insert \<lparr>pb_tunnel_key = 0, pb_logical_port = [], pb_columns = []\<rparr> t") auto
    from Cons.prems(1) d al False ins obtain t2 t3 t4 ops2 where
      u1: "ovn_port_update_sbrec cols (op\<lparr>op_sb := Some r\<rparr>) t1 = Inr t2" and
      u2: "sbrec_update r (\<lambda>row. row\<lparr>pb_logical_port := op_key op\<rparr>) t2 = Inr t3" and
      u3: "sbrec_update r (\<lambda>row. row\<lparr>pb_tunnel_key := uint (ucast k :: 16 word)\<rparr>) t3 = Inr t4" and
      rec: "add_ports cols ops t4 (ods(d := od1)) = Some (Inr (t', ods', ops2))"
      by (auto simp: Let_def split: option.splits sum.splits)
    note k1 = sbrec_insert_kept(1) [OF ins Cons.prems(2), of pb_tunnel_key]
      sbrec_insert_kept(2) [OF ins Cons.prems(2)]
    note k2 = update_sbrec_kept [OF u1, of n]
    note k3 = sbrec_update_kept_fresh [OF u2 k1(2), of pb_tunnel_key]
    note k4 = sbrec_update_kept_fresh [OF u3 k1(2), of pb_tunnel_key]
    note k14 = keys_kept_trans [OF keys_kept_trans [OF keys_kept_trans [OF k1(1) k2] k3] k4]
    note k5 = Cons.IH [OF rec keys_kept_fresh [OF k14 Cons.prems(2)]]
    show ?thesis by (rule keys_kept_trans [OF k14 k5])
  qed
qed

lemma build_ports_kept:
  assumes "build_ports cols t ods sb_only nb_only both = Some (Inr (t', ods', nb_only'))"
    and "r < sb_fresh t"
  shows "if Some r \<in> op_sb ` set sb_only then sb_rows t' r = None
         else map_option pb_tunnel_key (sb_rows t' r) = map_option pb_tunnel_key (sb_rows t r)"
proof -
  from assms(1) obtain t0 ods0 t1 where
    j: "update_both_ports cols both t ods = Inr (t0, ods0)" and
    a: "add_ports cols nb_only t0 ods0 = Some (Inr (t1, ods', nb_only'))" and
    d: "delete_sb_only (map op_sb sb_only) t1 = Inr t'"
    by (auto simp: build_ports_def split: option.splits sum.splits)
  note k0 = update_both_ports_kept [OF j, of "sb_fresh t"]
  have f0: "sb_fresh t \<le> sb_fresh t0" using keys_kept_fresh [OF k0] by simp
  note k1 = add_ports_kept [OF a f0]
  have "map_option pb_tunnel_key (sb_rows t1 r) = map_option pb_tunnel_key (sb_rows t r)"
    using keys_kept_trans [OF k0 k1] assms(2) by (simp add: keys_kept_def)
  then show ?thesis using delete_sb_only_rows [OF d, of r] by simp
qed

lemma sbrec_update_dom:
  "sbrec_update r f t = Inr t1 \<Longrightarrow> sb_rows t1 r' \<noteq> None \<Longrightarrow> sb_rows t r' \<noteq> None"
  by (auto simp: sbrec_update_def split: option.splits if_splits)

lemma sbrec_update_fresh: "sbrec_update r f t = Inr t1 \<Longrightarrow> sb_fresh t1 = sb_fresh t"
  by (auto simp: sbrec_update_def split: option.splits)

lemma sbrec_insert_dom:
  "sbrec_insert row t = (r, t1) \<Longrightarrow> sb_rows t1 r' \<noteq> None \<Longrightarrow> sb_rows t r' \<noteq> None \<or> r' = r"
  by (auto simp: sbrec_insert_def split: if_splits)

lemma sbrec_insert_fresh:
  "sbrec_insert row t = (r, t1) \<Longrightarrow> r = sb_fresh t \<and> sb_fresh t1 = Suc (sb_fresh t)"
  by (auto simp: sbrec_insert_def)

lemma update_external_ids_dom:
  assumes "ovn_datapath_update_external_ids od t = Inr t1"
  shows "sb_rows t1 r' \<noteq> None \<Longrightarrow> sb_rows t r' \<noteq> None" and "sb_fresh t1 = sb_fresh t"
proof -
  from assms obtain r ids where
    u: "sbrec_update r (\<lambda>row. row\<lparr>dp_external_ids := ids\<rparr>) t = Inr t1"
    by (auto simp: ovn_datapath_update_external_ids_def split: option.splits sum.splits)
  show "sb_rows t1 r' \<noteq> None \<Longrightarrow> sb_rows t r' \<noteq> None" by (rule sbrec_update_dom [OF u])
  show "sb_fresh t1 = sb_fresh t" by (rule sbrec_update_fresh [OF u])
qed

lemma join_both_dom:
  "join_both ods t = Inr t1 \<Longrightarrow>
   (sb_rows t1 r' \<noteq> None \<longrightarrow> sb_rows t r' \<noteq> None) \<and> sb_fresh t1 = sb_fresh t"
proof (induction ods arbitrary: t)
  case Nil
  then show ?case by simp
next
  case (Cons od ods)
  then obtain t' where a: "ovn_datapath_update_external_ids od t = Inr t'"
    and b: "join_both ods t' = Inr t1"
    by (auto split: sum.splits)
  show ?case using update_external_ids_dom(1) [OF a, of r'] update_external_ids_dom(2) [OF a] Cons.IH [OF b]
    by auto
qed

lemma add_datapaths_origin:
  "add_datapaths ods t s h = Some (Inr (t', h', ods')) \<Longrightarrow> sb_rows t' r' \<noteq> None \<Longrightarrow>
   sb_rows t r' \<noteq> None \<or> (sb_fresh t \<le> r' \<and> Some r' \<in> od_sb ` set ods')"
proof (induction ods arbitrary: t s h t' h' ods')
  case Nil
  then show ?case by simp
next
  case (Cons od ods)
  from Cons.prems(1) obtain k s1 h1 where al: "ovn_datapath_allocate_key s h = Some (k, s1, h1)"
    by (auto split: option.splits)
  show ?case
  proof (cases "k = 0")
    case True
    then show ?thesis using Cons.prems al by simp
  next
    case False
    obtain r t1 where ins: "sbrec_insert \<lparr>dp_tunnel_key = 0, dp_external_ids = []\<rparr> t = (r, t1)"
      by (cases "sbrec_insert \<lparr>dp_tunnel_key = 0, dp_external_ids = []\<rparr> t") auto
    from Cons.prems(1) al False ins obtain t2 t3 ods2 where
      u1: "ovn_datapath_update_external_ids (od\<lparr>od_sb := Some r\<rparr>) t1 = Inr t2" and
      u2: "sbrec_update r (\<lambda>row. row\<lparr>dp_tunnel_key := uint k\<rparr>) t2 = Inr t3" and
      rec: "add_datapaths ods t3 s1 h1 = Some (Inr (t', h', ods2))" and
      res: "ods' = od\<lparr>od_sb := Some r\<rparr> # ods2"
      by (auto split: option.splits sum.splits)
    note f1 = sbrec_insert_fresh [OF ins]
    have f3: "sb_fresh t3 = Suc (sb_fresh t)"
      using f1 update_external_ids_dom(2) [OF u1] sbrec_update_fresh [OF u2] by simp
    from Cons.IH [OF rec Cons.prems(2)]
    consider "sb_rows t3 r' \<noteq> None" | "sb_fresh t3 \<le> r'" "Some r' \<in> od_sb ` set ods2" by blast
    then show ?thesis
    proof cases
      case 1
      then have "sb_rows t1 r' \<noteq> None"
        using sbrec_update_dom [OF u2] update_external_ids_dom(1) [OF u1] by blast
      then have "sb_rows t r' \<noteq> None \<or> r' = r" by (rule sbrec_insert_dom [OF ins])
      then show ?thesis using f1 res by auto
    next
      case 2
      then show ?thesis using f3 res by auto
    qed
  qed
qed

lemma delete_sb_only_dom:
  "delete_sb_only sbs t = Inr t' \<Longrightarrow> sb_rows t' r \<noteq> None \<Longrightarrow> sb_rows t r \<noteq> None"
  using delete_sb_only_rows [of sbs t t' r] by (auto split: if_splits)

lemma build_datapaths_origin:
  assumes "build_datapaths t hint sb_only nb_only both = Some (Inr (t', hint', nb_only'))"
    and "sb_rows t' r \<noteq> None"
  shows "sb_rows t r \<noteq> None \<or> (sb_fresh t \<le> r \<and> Some r \<in> od_sb ` set nb_only')"
proof -
  define m where "m t0 =
      (if nb_only \<noteq> [] then
         (case index_dp_tnlids t0 both {} of
            Inl e \<Rightarrow> Some (Inl e)
          | Inr dp_tnlids \<Rightarrow> add_datapaths nb_only t0 dp_tnlids hint)
       else Some (Inr (t0, hint, nb_only)))" for t0
  have "(case join_both both t of
           Inl e \<Rightarrow> Some (Inl e)
         | Inr t0 \<Rightarrow>
             (case m t0 of
                None \<Rightarrow> None
              | Some (Inl e) \<Rightarrow> Some (Inl e)
              | Some (Inr (t1, hint1, nb_only')) \<Rightarrow>
                  (case delete_sb_only (map od_sb sb_only) t1 of
                     Inl e \<Rightarrow> Some (Inl e)
                   | Inr t2 \<Rightarrow> Some (Inr (t2, hint1, nb_only'))))) = Some (Inr (t', hint', nb_only'))"
    using assms(1) unfolding build_datapaths_def m_def .
  then obtain t0 t1 where
    j: "join_both both t = Inr t0" and
    a: "m t0 = Some (Inr (t1, hint', nb_only'))" and
    d: "delete_sb_only (map od_sb sb_only) t1 = Inr t'"
    by (auto split: option.splits sum.splits)
  have r1: "sb_rows t1 r \<noteq> None" by (rule delete_sb_only_dom [OF d assms(2)])
  have "sb_rows t0 r \<noteq> None \<or> (sb_fresh t0 \<le> r \<and> Some r \<in> od_sb ` set nb_only')"
  proof (cases "nb_only = []")
    case True
    then show ?thesis using a r1 by (simp add: m_def)
  next
    case False
    then obtain s where "add_datapaths nb_only t0 s hint = Some (Inr (t1, hint', nb_only'))"
      using a by (auto simp: m_def split: sum.splits)
    then show ?thesis using r1 by (rule add_datapaths_origin)
  qed
  then show ?thesis using join_both_dom [OF j, of r] by auto
qed

lemma index_dp_tnlids_records:
  "index_dp_tnlids t ods s = Inr s' \<Longrightarrow>
   s \<subseteq> s' \<and> (\<forall>od \<in> set ods. \<forall>r row. od_sb od = Some r \<longrightarrow> sb_rows t r = Some row \<longrightarrow>
      tnlid_in_use s' (word_of_int (dp_tunnel_key row)))"
proof (induction ods arbitrary: s)
  case Nil
  then show ?case by simp
next
  case (Cons od ods)
  from Cons.prems obtain r row where r: "od_sb od = Some r" and row: "sb_rows t r = Some row"
    and rec: "index_dp_tnlids t ods (add_tnlid s (word_of_int (dp_tunnel_key row))) = Inr s'"
    by (auto split: option.splits)
  from Cons.IH [OF rec] show ?case using r row
    by (auto simp: add_tnlid_def tnlid_in_use_def)
qed

lemma update_sbrec_dom:
  assumes "ovn_port_update_sbrec cols op t = Inr t1"
  shows "sb_rows t1 r' \<noteq> None \<Longrightarrow> sb_rows t r' \<noteq> None" and "sb_fresh t1 = sb_fresh t"
proof -
  from assms obtain r where
    u: "sbrec_update r (\<lambda>row. row\<lparr>pb_columns := cols op (pb_columns row)\<rparr>) t = Inr t1"
    by (auto simp: ovn_port_update_sbrec_def split: option.splits)
  show "sb_rows t1 r' \<noteq> None \<Longrightarrow> sb_rows t r' \<noteq> None" by (rule sbrec_update_dom [OF u])
  show "sb_fresh t1 = sb_fresh t" by (rule sbrec_update_fresh [OF u])
qed

lemma update_both_ports_dom:
  "update_both_ports cols ops t ods = Inr (t', ods') \<Longrightarrow>
   (sb_rows t' r' \<noteq> None \<longrightarrow> sb_rows t r' \<noteq> None) \<and> sb_fresh t' = sb_fresh t"
proof (induction ops arbitrary: t ods)
  case Nil
  then show ?case by simp
next
  case (Cons op ops)
  from Cons.prems obtain t1 ods1 where
    u: "ovn_port_update_sbrec cols op t = Inr t1" and
    rec: "update_both_ports cols ops t1 ods1 = Inr (t', ods')"
    by (auto simp: Let_def split: option.splits sum.splits)
  show ?case using update_sbrec_dom(1) [OF u, of r'] update_sbrec_dom(2) [OF u] Cons.IH [OF rec] by auto
qed

lemma add_ports_origin:
  "add_ports cols ops t ods = Some (Inr (t', ods', ops')) \<Longrightarrow> sb_rows t' r' \<noteq> None \<Longrightarrow>
   sb_rows t r' \<noteq> None \<or> (sb_fresh t \<le> r' \<and> Some r' \<in> op_sb ` set ops')"
proof (induction ops arbitrary: t ods t' ods' ops')
  case Nil
  then show ?case by simp
next
  case (Cons op ops)
  from Cons.prems(1) obtain d k od1 where d: "op_od op = Some d"
    and al: "ovn_port_allocate_key (ods d) = Some (k, od1)"
    by (auto split: option.splits)
  show ?case
  proof (cases "(ucast k :: 16 word) = 0")
    case True
    then obtain ops2 where rec: "add_ports cols ops t (ods(d := od1)) = Some (Inr (t', ods', ops2))"
      and res: "ops' = op # ops2"
      using Cons.prems(1) d al by (auto simp: Let_def split: option.splits sum.splits)
    from Cons.IH [OF rec Cons.prems(2)] show ?thesis using res by auto
  next
    case False
    obtain r t1 where
      ins: "sbrec_insert \<lparr>pb_tunnel_key = 0, pb_logical_port = [], pb_columns = []\<rparr> t = (r, t1)"
      by (cases "sbrec_insert \<lparr>pb_tunnel_key = 0, pb_logical_port = [], pb_columns = []\<rparr> t") auto
    from Cons.prems(1) d al False ins obtain t2 t3 t4 ops2 where
      u1: "ovn_port_update_sbrec cols (op\<lparr>op_sb := Some r\<rparr>) t1 = Inr t2" and
      u2: "sbrec_update r (\<lambda>row. row\<lparr>pb_logical_port := op_key op\<rparr>) t2 = Inr t3" and
      u3: "sbrec_update r (\<lambda>row. row\<lparr>pb_tunnel_key := uint (ucast k :: 16 word)\<rparr>) t3 = Inr t4" and
      rec: "add_ports cols ops t4 (ods(d := od1)) = Some (Inr (t', ods', ops2))" and
      res: "ops' = op\<lparr>op_sb := Some r\<rparr> # ops2"
      by (auto simp: Let_def split: option.splits sum.splits)
    note f1 = sbrec_insert_fresh [OF ins]
    have f4: "sb_fresh t4 = Suc (sb_fresh t)"
      using f1 update_sbrec_dom(2) [OF u1] sbrec_update_fresh [OF u2] sbrec_update_fresh [OF u3]
      by simp
    from Cons.IH [OF rec Cons.prems(2)]
    consider "sb_rows t4 r' \<noteq> None" | "sb_fresh t4 \<le> r'" "Some r' \<in> op_sb ` set ops2" by blast
    then show ?thesis
    proof cases
      case 1
      then have "sb_rows t1 r' \<noteq> None"
        using sbrec_update_dom [OF u3] sbrec_update_dom [OF u2] update_sbrec_dom(1) [OF u1] by blast
      then have "sb_rows t r' \<noteq> None \<or> r' = r" by (rule sbrec_insert_dom [OF ins])
      then show ?thesis using f1 res by auto
    next
      case 2
      then show ?thesis using f4 res by auto
    qed
  qed
qed

lemma build_ports_origin:
  assumes "build_ports cols t ods sb_only nb_only both = Some (Inr (t', ods', nb_only'))"
    and "sb_rows t' r \<noteq> None"
  shows "sb_rows t r \<noteq> None \<or> (sb_fresh t \<le> r \<and> Some r \<in> op_sb ` set nb_only')"
proof -
  from assms(1) obtain t0 ods0 t1 where
    j: "update_both_ports cols both t ods = Inr (t0, ods0)" and
    a: "add_ports cols nb_only t0 ods0 = Some (Inr (t1, ods', nb_only'))" and
    d: "delete_sb_only (map op_sb sb_only) t1 = Inr t'"
    by (auto simp: build_ports_def split: option.splits sum.splits)
  have r1: "sb_rows t1 r \<noteq> None" by (rule delete_sb_only_dom [OF d assms(2)])
  from add_ports_origin [OF a r1] show ?thesis using update_both_ports_dom [OF j, of r] by auto
qed

lemma keys_kept_row:
  assumes "keys_kept key (Suc r) t t1" and "sb_rows t r = Some row"
  shows "\<exists>row1. sb_rows t1 r = Some row1 \<and> key row1 = key row"
proof -
  have "map_option key (sb_rows t1 r) = Some (key row)"
    using assms by (simp add: keys_kept_def)
  then show ?thesis by (cases "sb_rows t1 r") auto
qed

lemma join_index_records:
  assumes j: "join_both both t = Inr t0" and i: "index_dp_tnlids t0 both {} = Inr dp_tnlids"
    and od: "od \<in> set both" and r: "od_sb od = Some r" and row: "sb_rows t r = Some row"
  shows "tnlid_in_use dp_tnlids (word_of_int (dp_tunnel_key row))"
proof -
  from keys_kept_row [OF join_both_kept [OF j] row]
  obtain row0 where r0: "sb_rows t0 r = Some row0" and k: "dp_tunnel_key row0 = dp_tunnel_key row"
    by blast
  from index_dp_tnlids_records [OF i] od r r0 have "tnlid_in_use dp_tnlids (word_of_int (dp_tunnel_key row0))"
    by blast
  then show ?thesis by (simp add: k)
qed

lemma allocate_tnlid_mono:
  "allocate_tnlid s tmin tmax h = Some (k, s', h') \<Longrightarrow> s \<subseteq> s'"
  by (auto simp: allocate_tnlid_def add_tnlid_def split: option.splits)

lemma ovn_port_allocate_key_mono:
  "ovn_port_allocate_key od = Some (k, od') \<Longrightarrow> port_tnlids od \<subseteq> port_tnlids od'"
  by (auto simp: ovn_port_allocate_key_def split: option.splits dest!: allocate_tnlid_mono)

lemma add_ports_mono:
  "add_ports cols ops t ods = Some (Inr (t', ods', ops')) \<Longrightarrow>
   port_tnlids (ods d) \<subseteq> port_tnlids (ods' d)"
proof (induction ops arbitrary: t ods t' ods' ops')
  case Nil
  then show ?case by simp
next
  case (Cons op ops)
  from Cons.prems(1) obtain d' k od1 where d: "op_od op = Some d'"
    and al: "ovn_port_allocate_key (ods d') = Some (k, od1)"
    by (auto split: option.splits)
  from Cons.prems(1) d al obtain t4 ops2 where
    rec: "add_ports cols ops t4 (ods(d' := od1)) = Some (Inr (t', ods', ops2))"
    by (cases "(ucast k :: 16 word) = 0";
        cases "sbrec_insert \<lparr>pb_tunnel_key = 0, pb_logical_port = [], pb_columns = []\<rparr> t")
       (auto simp: Let_def split: option.splits sum.splits)
  have "port_tnlids (ods d) \<subseteq> port_tnlids ((ods(d' := od1)) d)"
    using ovn_port_allocate_key_mono [OF al] by simp
  then show ?case using Cons.IH [OF rec] by blast
qed

lemma update_both_ports_records:
  "update_both_ports cols ops t ods = Inr (t', ods') \<Longrightarrow>
   port_tnlids (ods d) \<subseteq> port_tnlids (ods' d) \<and>
   (\<forall>op \<in> set ops. \<forall>r row. op_od op = Some d \<longrightarrow> op_sb op = Some r \<longrightarrow> sb_rows t r = Some row \<longrightarrow>
      word_of_int (pb_tunnel_key row) \<in> port_tnlids (ods' d))"
proof (induction ops arbitrary: t ods)
  case Nil
  then show ?case by simp
next
  case (Cons op ops)
  from Cons.prems obtain t1 d' r' row' where
    u: "ovn_port_update_sbrec cols op t = Inr t1" and d': "op_od op = Some d'" and
    r': "op_sb op = Some r'" and row': "sb_rows t1 r' = Some row'"
    by (auto simp: Let_def split: option.splits sum.splits)
  define od where "od = (ods d')\<lparr>port_tnlids :=
      add_tnlid (port_tnlids (ods d')) (word_of_int (pb_tunnel_key row'))\<rparr>"
  define od' where "od' = (if pb_tunnel_key row' > uint (port_key_hint od)
      then od\<lparr>port_key_hint := word_of_int (pb_tunnel_key row')\<rparr> else od)"
  have rec: "update_both_ports cols ops t1 (ods(d' := od')) = Inr (t', ods')"
    using Cons.prems u d' r' row' by (auto simp: Let_def od_def od'_def split: if_splits)
  note IH = Cons.IH [OF rec]
  have tn: "port_tnlids od' = insert (word_of_int (pb_tunnel_key row')) (port_tnlids (ods d'))"
    by (simp add: od'_def od_def add_tnlid_def)
  have sub: "port_tnlids (ods d) \<subseteq> port_tnlids ((ods(d' := od')) d)"
    using tn by auto
  have mono: "port_tnlids (ods d) \<subseteq> port_tnlids (ods' d)" using sub IH by blast
  have "word_of_int (pb_tunnel_key row) \<in> port_tnlids (ods' d)"
    if o: "o' \<in> set (op # ops)" and a: "op_od o' = Some d" "op_sb o' = Some r" "sb_rows t r = Some row"
    for o' r row
  proof -
    from keys_kept_row [OF update_sbrec_kept [OF u] a(3)]
    obtain row1 where r1: "sb_rows t1 r = Some row1" and k: "pb_tunnel_key row1 = pb_tunnel_key row"
      by blast
    show ?thesis
    proof (cases "o' = op")
      case True
      then have "d' = d" "r' = r" using a d' r' by simp_all
      then have "row' = row1" using row' r1 by simp
      then have "word_of_int (pb_tunnel_key row) \<in> port_tnlids ((ods(d' := od')) d)"
        using tn k \<open>d' = d\<close> by simp
      then show ?thesis using IH by blast
    next
      case False
      then have "o' \<in> set ops" using o by simp
      then have "word_of_int (pb_tunnel_key row1) \<in> port_tnlids (ods' d)"
        using IH a(1,2) r1 by blast
      then show ?thesis by (simp add: k)
    qed
  qed
  then show ?case using mono by blast
qed

lemma build_ports_records:
  assumes "build_ports cols t ods sb_only nb_only both = Some (Inr (t', ods', nb_only'))"
    and "op \<in> set both" and "op_od op = Some d" and "op_sb op = Some r" and "sb_rows t r = Some row"
  shows "tnlid_in_use (port_tnlids (ods' d)) (word_of_int (pb_tunnel_key row))"
proof -
  from assms(1) obtain t0 ods0 t1 where
    j: "update_both_ports cols both t ods = Inr (t0, ods0)" and
    a: "add_ports cols nb_only t0 ods0 = Some (Inr (t1, ods', nb_only'))"
    by (auto simp: build_ports_def split: option.splits sum.splits)
  have "word_of_int (pb_tunnel_key row) \<in> port_tnlids (ods0 d)"
    using update_both_ports_records [OF j, of d] assms(2-5) by blast
  then show ?thesis using add_ports_mono [OF a, of d] by (auto simp: tnlid_in_use_def)
qed

lemma allocate_first: "ovn_datapath_allocate_key {5} 0 = Some (1, {1, 5}, 1)"
  by (simp add: ovn_datapath_allocate_key_def allocate_tnlid_def next_tnlid_def allocate_scan.simps
      tnlid_in_use_def add_tnlid_def)

lemma datapath_run:
  "build_datapaths datapath_table 0 [gone_datapath] [new_datapath] [kept_datapath]
     = Some (Inr (datapath_table', 1, [new_datapath\<lparr>od_sb := Some 2\<rparr>]))"
  by (simp add: build_datapaths_def ovn_datapath_update_external_ids_def datapath_ids_def
      sbrec_update_def sbrec_insert_def sbrec_delete_def smap_get_def add_tnlid_def
      allocate_first
      kept_datapath_def gone_datapath_def new_datapath_def datapath_table_def datapath_table'_def
      fun_eq_iff)

lemma datapath_join_run: "join_both [kept_datapath] datapath_table = Inr datapath_table0"
  by (simp add: ovn_datapath_update_external_ids_def datapath_ids_def sbrec_update_def smap_get_def
      kept_datapath_def datapath_table_def datapath_table0_def fun_eq_iff)

lemma datapath_index_run: "index_dp_tnlids datapath_table0 [kept_datapath] {} = Inr {5}"
  by (simp add: kept_datapath_def datapath_table0_def add_tnlid_def)

lemma port_allocate_first:
  "ovn_port_allocate_key \<lparr>port_tnlids = {3}, port_key_hint = 3\<rparr>
     = Some (4, \<lparr>port_tnlids = {4, 3}, port_key_hint = 4\<rparr>)"
  by (simp add: ovn_port_allocate_key_def allocate_tnlid_def next_tnlid_def allocate_scan.simps
      tnlid_in_use_def add_tnlid_def)

lemma port_run:
  "build_ports port_columns port_table port_key_state [gone_port] [new_port] [kept_port]
     = Some (Inr (port_table', port_key_state', [new_port\<lparr>op_sb := Some 2\<rparr>]))"
  by (simp add: build_ports_def ovn_port_update_sbrec_def port_columns_def
      sbrec_update_def sbrec_insert_def sbrec_delete_def add_tnlid_def port_allocate_first
      kept_port_def gone_port_def new_port_def port_table_def port_table'_def
      port_key_state_def port_key_state'_def fun_eq_iff insert_commute)

text \<open>
  C7: a pass of \<^verbatim>\<open>build_datapaths\<close> or \<^verbatim>\<open>build_ports\<close> that returns leaves the \<^verbatim>\<open>tunnel_key\<close> of
  every southbound row that existed before it unchanged, unless the row belongs to the
  \<^verbatim>\<open>sb_only\<close> list and is deleted; in particular the rows of the \<^verbatim>\<open>both\<close> list keep their
  keys.  Every row of the table after the pass either existed before or was inserted for a
  datapath or port of the \<^verbatim>\<open>nb_only\<close> list, so fresh keys go to northbound-only rows alone.
  The key of a \<^verbatim>\<open>both\<close> row is recorded as in use: in the \<^verbatim>\<open>dp_tnlids\<close> set built for the
  datapath allocator, and in the \<^verbatim>\<open>port_tnlids\<close> set of the port's datapath.
\<close>

theorem both_tunnel_keys_unchanged:
  "(build_datapaths t hint sb_only nb_only both = Some (Inr (t', hint', nb_only')) \<longrightarrow>
      (\<forall>r < sb_fresh t.
          if Some r \<in> od_sb ` set sb_only then sb_rows t' r = None
          else map_option dp_tunnel_key (sb_rows t' r) = map_option dp_tunnel_key (sb_rows t r)) \<and>
      (\<forall>r. sb_rows t' r \<noteq> None \<longrightarrow>
          sb_rows t r \<noteq> None \<or> (sb_fresh t \<le> r \<and> Some r \<in> od_sb ` set nb_only')))
   \<and> (join_both both t = Inr t0 \<and> index_dp_tnlids t0 both {} = Inr dp_tnlids \<longrightarrow>
      (\<forall>od \<in> set both. \<forall>r row. od_sb od = Some r \<and> sb_rows t r = Some row \<longrightarrow>
          tnlid_in_use dp_tnlids (word_of_int (dp_tunnel_key row))))
   \<and> (build_ports cols pt ods psb_only pnb_only pboth = Some (Inr (pt', ods', pnb_only')) \<longrightarrow>
      (\<forall>r < sb_fresh pt.
          if Some r \<in> op_sb ` set psb_only then sb_rows pt' r = None
          else map_option pb_tunnel_key (sb_rows pt' r) = map_option pb_tunnel_key (sb_rows pt r)) \<and>
      (\<forall>r. sb_rows pt' r \<noteq> None \<longrightarrow>
          sb_rows pt r \<noteq> None \<or> (sb_fresh pt \<le> r \<and> Some r \<in> op_sb ` set pnb_only')) \<and>
      (\<forall>op \<in> set pboth. \<forall>d r row. op_od op = Some d \<and> op_sb op = Some r \<and> sb_rows pt r = Some row \<longrightarrow>
          tnlid_in_use (port_tnlids (ods' d)) (word_of_int (pb_tunnel_key row))))"
proof (intro conjI impI allI ballI)
  fix r assume "build_datapaths t hint sb_only nb_only both = Some (Inr (t', hint', nb_only'))"
    and "r < sb_fresh t"
  then show "if Some r \<in> od_sb ` set sb_only then sb_rows t' r = None
          else map_option dp_tunnel_key (sb_rows t' r) = map_option dp_tunnel_key (sb_rows t r)"
    by (rule build_datapaths_kept)
next
  fix r assume "build_datapaths t hint sb_only nb_only both = Some (Inr (t', hint', nb_only'))"
    and "sb_rows t' r \<noteq> None"
  then show "sb_rows t r \<noteq> None \<or> (sb_fresh t \<le> r \<and> Some r \<in> od_sb ` set nb_only')"
    by (rule build_datapaths_origin)
next
  fix od r row
  assume "join_both both t = Inr t0 \<and> index_dp_tnlids t0 both {} = Inr dp_tnlids"
    and "od \<in> set both" and "od_sb od = Some r \<and> sb_rows t r = Some row"
  then show "tnlid_in_use dp_tnlids (word_of_int (dp_tunnel_key row))"
    using join_index_records by blast
next
  fix r assume "build_ports cols pt ods psb_only pnb_only pboth = Some (Inr (pt', ods', pnb_only'))"
    and "r < sb_fresh pt"
  then show "if Some r \<in> op_sb ` set psb_only then sb_rows pt' r = None
          else map_option pb_tunnel_key (sb_rows pt' r) = map_option pb_tunnel_key (sb_rows pt r)"
    by (rule build_ports_kept)
next
  fix r assume "build_ports cols pt ods psb_only pnb_only pboth = Some (Inr (pt', ods', pnb_only'))"
    and "sb_rows pt' r \<noteq> None"
  then show "sb_rows pt r \<noteq> None \<or> (sb_fresh pt \<le> r \<and> Some r \<in> op_sb ` set pnb_only')"
    by (rule build_ports_origin)
next
  fix op d r row
  assume "build_ports cols pt ods psb_only pnb_only pboth = Some (Inr (pt', ods', pnb_only'))"
    and "op \<in> set pboth" and "op_od op = Some d \<and> op_sb op = Some r \<and> sb_rows pt r = Some row"
  then show "tnlid_in_use (port_tnlids (ods' d)) (word_of_int (pb_tunnel_key row))"
    using build_ports_records by blast
qed

theorem both_tunnel_keys_unchanged_witness:
  "build_datapaths datapath_table 0 [gone_datapath] [new_datapath] [kept_datapath]
     = Some (Inr (datapath_table', 1, [new_datapath\<lparr>od_sb := Some 2\<rparr>]))
   \<and> map_option dp_tunnel_key (sb_rows datapath_table' 0) = map_option dp_tunnel_key (sb_rows datapath_table 0)
   \<and> sb_rows datapath_table' 1 = None
   \<and> sb_rows datapath_table' 2 \<noteq> None
   \<and> Some 2 \<in> od_sb ` set [new_datapath\<lparr>od_sb := Some 2\<rparr>]
   \<and> join_both [kept_datapath] datapath_table = Inr datapath_table0
   \<and> index_dp_tnlids datapath_table0 [kept_datapath] {} = Inr {5}
   \<and> tnlid_in_use {5} (word_of_int 5)
   \<and> build_ports port_columns port_table port_key_state [gone_port] [new_port] [kept_port]
     = Some (Inr (port_table', port_key_state', [new_port\<lparr>op_sb := Some 2\<rparr>]))
   \<and> map_option pb_tunnel_key (sb_rows port_table' 0) = map_option pb_tunnel_key (sb_rows port_table 0)
   \<and> sb_rows port_table' 1 = None
   \<and> sb_rows port_table' 2 \<noteq> None
   \<and> Some 2 \<in> op_sb ` set [new_port\<lparr>op_sb := Some 2\<rparr>]
   \<and> tnlid_in_use (port_tnlids (port_key_state' 0)) (word_of_int 3)"
proof -
  note th = both_tunnel_keys_unchanged [where t = datapath_table and hint = 0
      and sb_only = "[gone_datapath]" and nb_only = "[new_datapath]" and both = "[kept_datapath]"
      and t' = datapath_table' and hint' = 1 and nb_only' = "[new_datapath\<lparr>od_sb := Some 2\<rparr>]"
      and ?t0.0 = datapath_table0 and dp_tnlids = "{5}"
      and cols = port_columns and pt = port_table and ods = port_key_state
      and psb_only = "[gone_port]" and pnb_only = "[new_port]" and pboth = "[kept_port]"
      and pt' = port_table' and ods' = port_key_state'
      and pnb_only' = "[new_port\<lparr>op_sb := Some 2\<rparr>]"]
  from th datapath_run have d1: "\<forall>r < sb_fresh datapath_table.
          if Some r \<in> od_sb ` set [gone_datapath] then sb_rows datapath_table' r = None
          else map_option dp_tunnel_key (sb_rows datapath_table' r)
             = map_option dp_tunnel_key (sb_rows datapath_table r)"
    and d2: "\<forall>r. sb_rows datapath_table' r \<noteq> None \<longrightarrow>
          sb_rows datapath_table r \<noteq> None \<or>
          (sb_fresh datapath_table \<le> r \<and> Some r \<in> od_sb ` set [new_datapath\<lparr>od_sb := Some 2\<rparr>])"
    by blast+
  from th datapath_join_run datapath_index_run
  have d3: "\<forall>od \<in> set [kept_datapath]. \<forall>r row.
      od_sb od = Some r \<and> sb_rows datapath_table r = Some row \<longrightarrow>
      tnlid_in_use {5} (word_of_int (dp_tunnel_key row))"
    by blast
  from th port_run have p1: "\<forall>r < sb_fresh port_table.
          if Some r \<in> op_sb ` set [gone_port] then sb_rows port_table' r = None
          else map_option pb_tunnel_key (sb_rows port_table' r)
             = map_option pb_tunnel_key (sb_rows port_table r)"
    and p2: "\<forall>r. sb_rows port_table' r \<noteq> None \<longrightarrow>
          sb_rows port_table r \<noteq> None \<or>
          (sb_fresh port_table \<le> r \<and> Some r \<in> op_sb ` set [new_port\<lparr>op_sb := Some 2\<rparr>])"
    and p3: "\<forall>op \<in> set [kept_port]. \<forall>d r row.
      op_od op = Some d \<and> op_sb op = Some r \<and> sb_rows port_table r = Some row \<longrightarrow>
      tnlid_in_use (port_tnlids (port_key_state' d)) (word_of_int (pb_tunnel_key row))"
    by blast+
  have fr: "sb_fresh datapath_table = 2" "sb_fresh port_table = 2"
    by (simp_all add: datapath_table_def port_table_def)
  have g: "od_sb gone_datapath = Some 1" "op_sb gone_port = Some 1"
    by (simp_all add: gone_datapath_def gone_port_def)
  have c1: "map_option dp_tunnel_key (sb_rows datapath_table' 0)
      = map_option dp_tunnel_key (sb_rows datapath_table 0)"
    using d1 [rule_format, of 0] by (simp add: fr g)
  have c2: "sb_rows datapath_table' 1 = None"
    using d1 [rule_format, of 1] by (simp add: fr g)
  have n2: "sb_rows datapath_table' 2 \<noteq> None" by (simp add: datapath_table'_def)
  have n2': "sb_rows datapath_table 2 = None" by (simp add: datapath_table_def)
  have c3: "Some 2 \<in> od_sb ` set [new_datapath\<lparr>od_sb := Some 2\<rparr>]"
    using d2 [rule_format, OF n2] n2' by blast
  have k: "od_sb kept_datapath = Some 0" "sb_rows datapath_table 0
      = Some \<lparr>dp_tunnel_key = 5, dp_external_ids = [(''logical-switch'', ''sw-kept'')]\<rparr>"
    by (simp_all add: kept_datapath_def datapath_table_def)
  have c4: "tnlid_in_use {5} (word_of_int 5)"
    using d3 [rule_format, of kept_datapath 0] k by simp
  have q1: "map_option pb_tunnel_key (sb_rows port_table' 0)
      = map_option pb_tunnel_key (sb_rows port_table 0)"
    using p1 [rule_format, of 0] by (simp add: fr g)
  have q2: "sb_rows port_table' 1 = None"
    using p1 [rule_format, of 1] by (simp add: fr g)
  have m2: "sb_rows port_table' 2 \<noteq> None" by (simp add: port_table'_def)
  have m2': "sb_rows port_table 2 = None" by (simp add: port_table_def)
  have q3: "Some 2 \<in> op_sb ` set [new_port\<lparr>op_sb := Some 2\<rparr>]"
    using p2 [rule_format, OF m2] m2' by blast
  have kp: "op_od kept_port = Some 0" "op_sb kept_port = Some 0" "sb_rows port_table 0
      = Some \<lparr>pb_tunnel_key = 3, pb_logical_port = ''p-kept'', pb_columns = []\<rparr>"
    by (simp_all add: kept_port_def port_table_def)
  have q4: "tnlid_in_use (port_tnlids (port_key_state' 0)) (word_of_int 3)"
    using p3 [rule_format, of kept_port 0 0] kp by simp
  show ?thesis
    using datapath_run c1 c2 n2 c3 datapath_join_run datapath_index_run c4 port_run q1 q2 m2 q3 q4
    by blast
qed

section \<open>Logical flows and their rows\<close>

lemma ovn_lflow_add_at_cons:
  assumes "ovn_lflow_add_at flow_hash datapaths lflows od stage priority mtch actions hint wher = Inr lflows'"
  shows "\<exists>h. lflows' = (h, \<lparr>lf_od = od, lf_stage = stage, lf_priority = priority, lf_match = mtch,
                  lf_actions = actions, lf_stage_hint = hint, lf_where = wher\<rparr>) # lflows"
  using assms
  by (auto simp: ovn_lflow_add_at_def Let_def split: sum.splits if_splits)

lemma ovn_lflow_find_Some:
  assumes "ovn_lflow_find lflows od stage priority mtch actions hash = Some i"
  shows "i < length lflows" and "lf_od (snd (lflows ! i)) = od" and "lf_stage (snd (lflows ! i)) = stage"
    and "lf_priority (snd (lflows ! i)) = priority" and "lf_match (snd (lflows ! i)) = mtch"
    and "lf_actions (snd (lflows ! i)) = actions"
  using assms by (auto simp: ovn_lflow_find_def find_Some_iff ovn_lflow_equal_def)

lemma mset_ovn_lflow_destroy:
  assumes "i < length lflows"
  shows "mset lflows = add_mset (lflows ! i) (mset (ovn_lflow_destroy lflows i))"
proof -
  have "lflows = take i lflows @ lflows ! i # drop (Suc i) lflows"
    using assms by (rule id_take_nth_drop)
  then have "mset lflows = mset (take i lflows @ lflows ! i # drop (Suc i) lflows)" by simp
  then show ?thesis by (simp add: ovn_lflow_destroy_def)
qed

lemma uint_table: "0 \<le> x \<Longrightarrow> x < 256 \<Longrightarrow> uint (word_of_int x :: 8 word) = x"
  by (simp add: uint_word_of_int)

lemma uint_priority: "0 \<le> x \<Longrightarrow> x < 65536 \<Longrightarrow> uint (word_of_int x :: 16 word) = x"
  by (simp add: uint_word_of_int)

lemma matched_identity:
  assumes c: "sbflow_conforms get_uuid dp_table datapaths sbflow"
    and p: "sf_logical_datapath sbflow = Some p" and sb: "sb_rows dp_table p = Some sb"
    and od: "ovn_datapath_from_sbrec get_uuid datapaths sb = Some od"
    and f: "ovn_lflow_find lflows od
              (ovn_stage_build dp_type (if sf_pipeline sbflow = ''ingress'' then P_IN else P_OUT)
                 (word_of_int (sf_table_id sbflow)))
              (word_of_int (sf_priority sbflow)) (sf_match sbflow) (sf_actions sbflow) hash = Some i"
  shows "lflow_identity datapaths (snd (lflows ! i)) = row_identity sbflow"
proof -
  note fs = ovn_lflow_find_Some [OF f]
  have sbp: "od_sb (datapaths ! od) = Some p" using c p sb od by (simp add: sbflow_conforms_def)
  have pl: "sf_pipeline sbflow = ''ingress'' \<or> sf_pipeline sbflow = ''egress''"
    and t: "0 \<le> sf_table_id sbflow" "sf_table_id sbflow < 256"
    and pr: "0 \<le> sf_priority sbflow" "sf_priority sbflow < 65536"
    using c by (simp_all add: sbflow_conforms_def)
  have name: "ovn_stage_get_pipeline_name (lf_stage (snd (lflows ! i))) = sf_pipeline sbflow"
    using pl by (auto simp: fs(3) ovn_stage_get_pipeline_name_def ovn_stage_get_pipeline_def
        ovn_stage_build_def)
  have tbl: "uint (ovn_stage_get_table (lf_stage (snd (lflows ! i)))) = sf_table_id sbflow"
    using uint_table [OF t] by (simp add: fs(3) ovn_stage_get_table_def ovn_stage_build_def)
  have prio: "uint (lf_priority (snd (lflows ! i))) = sf_priority sbflow"
    using uint_priority [OF pr] by (simp add: fs(4))
  show ?thesis
    by (simp add: lflow_identity_def row_identity_def fs(2) sbp p name tbl prio fs(5) fs(6))
qed

lemma sync_sb_flows_identities:
  "sync_sb_flows get_uuid dp_table datapaths sbflows lflows = Inr (kept, lflows') \<Longrightarrow>
   \<forall>s \<in> set sbflows. sbflow_conforms get_uuid dp_table datapaths s \<Longrightarrow>
   image_mset row_identity (mset kept) + image_mset (\<lambda>n. lflow_identity datapaths (snd n)) (mset lflows')
     = image_mset (\<lambda>n. lflow_identity datapaths (snd n)) (mset lflows)"
proof (induction sbflows arbitrary: lflows kept lflows')
  case Nil
  then show ?case by simp
next
  case (Cons s ss)
  have cs: "sbflow_conforms get_uuid dp_table datapaths s"
    and css: "\<forall>s \<in> set ss. sbflow_conforms get_uuid dp_table datapaths s"
    using Cons.prems(2) by simp_all
  from Cons.prems(1) obtain p sb where p: "sf_logical_datapath s = Some p"
    and sb: "sb_rows dp_table p = Some sb"
    by (auto split: option.splits)
  show ?case
  proof (cases "ovn_datapath_from_sbrec get_uuid datapaths sb")
    case None
    then have "sync_sb_flows get_uuid dp_table datapaths ss lflows = Inr (kept, lflows')"
      using Cons.prems(1) p sb by simp
    then show ?thesis using css by (rule Cons.IH)
  next
    case (Some od)
    from Cons.prems(1) p sb Some obtain odr where odr: "deref datapaths od = Inr odr"
      by (auto split: sum.splits)
    define dp_type where "dp_type = (if od_nbs odr \<noteq> None then DP_SWITCH else DP_ROUTER)"
    define fnd where "fnd = ovn_lflow_find lflows od
        (ovn_stage_build dp_type (if sf_pipeline s = ''ingress'' then P_IN else P_OUT)
           (word_of_int (sf_table_id s)))
        (word_of_int (sf_priority s)) (sf_match s) (sf_actions s) (sf_hash s)"
    have step: "(case fnd of
          Some i \<Rightarrow>
            (case sync_sb_flows get_uuid dp_table datapaths ss (ovn_lflow_destroy lflows i) of
               Inl e \<Rightarrow> Inl e
             | Inr (kept, lflows') \<Rightarrow> Inr (s # kept, lflows'))
        | None \<Rightarrow> sync_sb_flows get_uuid dp_table datapaths ss lflows) = Inr (kept, lflows')"
      using Cons.prems(1) p sb Some odr by (simp add: Let_def fnd_def dp_type_def)
    show ?thesis
    proof (cases fnd)
      case None
      then have "sync_sb_flows get_uuid dp_table datapaths ss lflows = Inr (kept, lflows')"
        using step by simp
      then show ?thesis using css by (rule Cons.IH)
    next
      case (Some i)
      then obtain kept1 where
        rec: "sync_sb_flows get_uuid dp_table datapaths ss (ovn_lflow_destroy lflows i) = Inr (kept1, lflows')"
        and k: "kept = s # kept1"
        using step by (auto split: sum.splits)
      have f: "ovn_lflow_find lflows od
          (ovn_stage_build dp_type (if sf_pipeline s = ''ingress'' then P_IN else P_OUT)
             (word_of_int (sf_table_id s)))
          (word_of_int (sf_priority s)) (sf_match s) (sf_actions s) (sf_hash s) = Some i"
        using Some by (simp add: fnd_def)
      have i: "i < length lflows" by (rule ovn_lflow_find_Some(1) [OF f])
      have idn: "lflow_identity datapaths (snd (lflows ! i)) = row_identity s"
        by (rule matched_identity [OF cs p sb \<open>ovn_datapath_from_sbrec get_uuid datapaths sb = Some od\<close> f])
      note IH = Cons.IH [OF rec css]
      have "image_mset (\<lambda>n. lflow_identity datapaths (snd n)) (mset lflows)
          = add_mset (row_identity s)
              (image_mset (\<lambda>n. lflow_identity datapaths (snd n)) (mset (ovn_lflow_destroy lflows i)))"
        by (subst mset_ovn_lflow_destroy [OF i]) (simp add: idn)
      then show ?thesis using IH k by simp
    qed
  qed
qed

lemma lflow_row_identity:
  "lflow_row datapaths lflow = Inr row \<Longrightarrow> row_identity row = lflow_identity datapaths lflow"
  by (auto simp: lflow_row_def deref_def row_identity_def lflow_identity_def split: if_splits)

lemma insert_lflows_identities:
  "insert_lflows datapaths lflows = Inr rows \<Longrightarrow>
   image_mset row_identity (mset rows) = image_mset (\<lambda>n. lflow_identity datapaths (snd n)) (mset lflows)"
proof (induction lflows arbitrary: rows)
  case Nil
  then show ?case by simp
next
  case (Cons n lflows)
  obtain h lflow where n: "n = (h, lflow)" by (cases n)
  from Cons.prems n obtain row rows1 where r: "lflow_row datapaths lflow = Inr row"
    and rec: "insert_lflows datapaths lflows = Inr rows1" and rows: "rows = row # rows1"
    by (auto split: sum.splits)
  show ?case using Cons.IH [OF rec] lflow_row_identity [OF r] by (simp add: rows n)
qed

lemma push_lflows_identities:
  assumes "push_lflows get_uuid dp_table datapaths sbflows lflows = Inr rows"
    and "\<forall>s \<in> set sbflows. sbflow_conforms get_uuid dp_table datapaths s"
  shows "image_mset row_identity (mset rows)
       = image_mset (\<lambda>n. lflow_identity datapaths (snd n)) (mset lflows)"
proof -
  from assms(1) obtain kept lflows' rows1 where
    s: "sync_sb_flows get_uuid dp_table datapaths sbflows lflows = Inr (kept, lflows')" and
    i: "insert_lflows datapaths lflows' = Inr rows1" and r: "rows = kept @ rows1"
    by (auto simp: push_lflows_def split: sum.splits)
  show ?thesis
    using sync_sb_flows_identities [OF s assms(2)] insert_lflows_identities [OF i] by (simp add: r)
qed

lemma upt_0_1: "[0..<Suc 0] = [0]"
  by simp

lemma acl_stage_known: "stage_known S_SWITCH_IN_ACL"
  by (simp add: stage_known_def S_SWITCH_IN_ACL_def ovn_stage_build_def pipeline_stages_def)

lemma acl_stage_name: "ovn_stage_to_str S_SWITCH_IN_ACL = ''ls_in_acl''"
proof -
  have "unat (6 :: 8 word) = Suc (Suc (Suc (Suc (Suc (Suc 0)))))" by simp
  then show ?thesis
    using acl_stage_known
    by (simp add: ovn_stage_to_str_def S_SWITCH_IN_ACL_def ovn_stage_build_def pipeline_stages_def)
qed

lemma add_first:
  "ovn_lflow_add_at priority_hash flow_datapaths [] 0 S_SWITCH_IN_ACL 1001 ''ip4'' ''next;'' None
     ''northd/ovn-northd.c:4520'' = Inr [twice_node]"
  using acl_stage_known
  by (simp add: ovn_lflow_add_at_def Let_def ovn_stage_to_datapath_type_def deref_def flow_datapaths_def
      ovn_datapath_get_type_def ovn_lflow_hash_def priority_hash_def twice_node_def
      S_SWITCH_IN_ACL_def ovn_stage_build_def)

lemma add_second:
  "ovn_lflow_add_at priority_hash flow_datapaths [twice_node] 0 S_SWITCH_IN_ACL 1001 ''ip4'' ''next;''
     None ''northd/ovn-northd.c:4520'' = Inr [twice_node, twice_node]"
  using acl_stage_known
  by (simp add: ovn_lflow_add_at_def Let_def ovn_stage_to_datapath_type_def deref_def flow_datapaths_def
      ovn_datapath_get_type_def ovn_lflow_hash_def priority_hash_def twice_node_def
      S_SWITCH_IN_ACL_def ovn_stage_build_def)

lemma twice_lflow_row: "lflow_row flow_datapaths (snd twice_node) = Inr twice_row"
  using acl_stage_name
  by (simp add: lflow_row_def deref_def flow_datapaths_def twice_node_def twice_row_def
      ovn_stage_get_pipeline_name_def ovn_stage_get_pipeline_def ovn_stage_get_table_def
      S_SWITCH_IN_ACL_def ovn_stage_build_def trim_where_def)

lemma push_empty:
  "push_lflows flow_get_uuid flow_dp_table flow_datapaths [] [twice_node, twice_node]
     = Inr [twice_row, twice_row]"
proof -
  have "insert_lflows flow_datapaths [twice_node, twice_node] = Inr [twice_row, twice_row]"
    using twice_lflow_row by (simp add: twice_node_def)
  then show ?thesis by (simp add: push_lflows_def)
qed

lemma stored_row_conforms: "sbflow_conforms flow_get_uuid flow_dp_table flow_datapaths stored_row"
  by (simp add: sbflow_conforms_def stored_row_def flow_dp_table_def flow_datapaths_def
      ovn_datapath_from_sbrec_def flow_get_uuid_def smap_get_def ovn_datapath_find_def)

lemma find_stored:
  "ovn_lflow_find [twice_node, twice_node] 0
     (ovn_stage_build DP_SWITCH P_IN 6) 1001 ''ip4'' ''next;'' 1001 = Some 0"
proof -
  have "[0..<length [twice_node, twice_node]] = [0, Suc 0]" by (simp add: upt_rec)
  then show ?thesis
    by (simp add: ovn_lflow_find_def ovn_lflow_equal_def twice_node_def S_SWITCH_IN_ACL_def)
qed

lemma sync_stored:
  "sync_sb_flows flow_get_uuid flow_dp_table flow_datapaths [stored_row] [twice_node, twice_node]
     = Inr ([stored_row], [twice_node])"
proof -
  have s: "sf_logical_datapath stored_row = Some 0" "sf_pipeline stored_row = ''ingress''"
    "sf_table_id stored_row = 6" "sf_priority stored_row = 1001" "sf_match stored_row = ''ip4''"
    "sf_actions stored_row = ''next;''" "sf_hash stored_row = 1001"
    by (simp_all add: stored_row_def)
  have d: "sb_rows flow_dp_table 0
      = Some \<lparr>dp_tunnel_key = 1, dp_external_ids = [(''logical-switch'', ''sw0'')]\<rparr>"
    by (simp add: flow_dp_table_def)
  have f: "ovn_datapath_from_sbrec flow_get_uuid flow_datapaths
      \<lparr>dp_tunnel_key = 1, dp_external_ids = [(''logical-switch'', ''sw0'')]\<rparr> = Some 0"
    by (simp add: ovn_datapath_from_sbrec_def flow_get_uuid_def smap_get_def ovn_datapath_find_def
        flow_datapaths_def)
  have r: "deref flow_datapaths 0 = Inr (flow_datapaths ! 0)" "od_nbs (flow_datapaths ! 0) \<noteq> None"
    by (simp_all add: deref_def flow_datapaths_def)
  show ?thesis
    by (simp add: s d f r find_stored ovn_lflow_destroy_def)
qed

lemma push_stored:
  "push_lflows flow_get_uuid flow_dp_table flow_datapaths [stored_row] [twice_node, twice_node]
     = Inr [stored_row, twice_row]"
proof -
  have "insert_lflows flow_datapaths [twice_node] = Inr [twice_row]"
    using twice_lflow_row by (simp add: twice_node_def)
  then show ?thesis unfolding push_lflows_def sync_stored by simp
qed

text \<open>
  C1 (amended): flows added with identical identity are not coalesced.  A call of
  \<^verbatim>\<open>ovn_lflow_add_at\<close> that returns adds one node to the flow table, whether or not an equal
  node is there, and after the reconciliation of \<^verbatim>\<open>build_lflows\<close> the Logical_Flow table holds,
  for every identity (datapath, pipeline, table, priority, match, actions), as many rows as
  there were flows added with that identity, provided the rows found in the southbound
  database conform to the schema.
\<close>

theorem logical_flows_one_row_per_flow:
  "(ovn_lflow_add_at flow_hash datapaths lflows od stage priority mtch actions hint wher = Inr lflows1 \<longrightarrow>
      image_mset (\<lambda>n. lflow_identity datapaths (snd n)) (mset lflows1)
        = add_mset (od_sb (datapaths ! od), ovn_stage_get_pipeline_name stage,
                    uint (ovn_stage_get_table stage), uint priority, mtch, actions)
            (image_mset (\<lambda>n. lflow_identity datapaths (snd n)) (mset lflows)))
   \<and> (push_lflows get_uuid dp_table datapaths sbflows lflows2 = Inr rows \<and>
       list_all (sbflow_conforms get_uuid dp_table datapaths) sbflows \<longrightarrow>
      image_mset row_identity (mset rows)
        = image_mset (\<lambda>n. lflow_identity datapaths (snd n)) (mset lflows2))"
proof (intro conjI impI)
  assume "ovn_lflow_add_at flow_hash datapaths lflows od stage priority mtch actions hint wher = Inr lflows1"
  from ovn_lflow_add_at_cons [OF this] obtain h where
    "lflows1 = (h, \<lparr>lf_od = od, lf_stage = stage, lf_priority = priority, lf_match = mtch,
        lf_actions = actions, lf_stage_hint = hint, lf_where = wher\<rparr>) # lflows"
    by blast
  then show "image_mset (\<lambda>n. lflow_identity datapaths (snd n)) (mset lflows1)
        = add_mset (od_sb (datapaths ! od), ovn_stage_get_pipeline_name stage,
                    uint (ovn_stage_get_table stage), uint priority, mtch, actions)
            (image_mset (\<lambda>n. lflow_identity datapaths (snd n)) (mset lflows))"
    by (simp add: lflow_identity_def)
next
  assume a: "push_lflows get_uuid dp_table datapaths sbflows lflows2 = Inr rows \<and>
       list_all (sbflow_conforms get_uuid dp_table datapaths) sbflows"
  then have "\<forall>s \<in> set sbflows. sbflow_conforms get_uuid dp_table datapaths s"
    by (simp add: list_all_iff)
  with a show "image_mset row_identity (mset rows)
        = image_mset (\<lambda>n. lflow_identity datapaths (snd n)) (mset lflows2)"
    using push_lflows_identities by blast
qed

theorem logical_flows_one_row_per_flow_witness:
  "ovn_lflow_add_at priority_hash flow_datapaths [twice_node] 0 S_SWITCH_IN_ACL 1001 ''ip4'' ''next;''
     None ''northd/ovn-northd.c:4520'' = Inr [twice_node, twice_node]
   \<and> image_mset (\<lambda>n. lflow_identity flow_datapaths (snd n)) (mset [twice_node, twice_node])
        = add_mset (od_sb (flow_datapaths ! 0), ovn_stage_get_pipeline_name S_SWITCH_IN_ACL,
                    uint (ovn_stage_get_table S_SWITCH_IN_ACL), uint (1001 :: 16 word), ''ip4'', ''next;'')
            (image_mset (\<lambda>n. lflow_identity flow_datapaths (snd n)) (mset [twice_node]))
   \<and> push_lflows flow_get_uuid flow_dp_table flow_datapaths [stored_row] [twice_node, twice_node]
        = Inr [stored_row, twice_row]
   \<and> list_all (sbflow_conforms flow_get_uuid flow_dp_table flow_datapaths) [stored_row]
   \<and> image_mset row_identity (mset [stored_row, twice_row])
        = image_mset (\<lambda>n. lflow_identity flow_datapaths (snd n)) (mset [twice_node, twice_node])"
proof -
  note th = logical_flows_one_row_per_flow [where flow_hash = priority_hash
      and datapaths = flow_datapaths and lflows = "[twice_node]" and od = 0
      and stage = S_SWITCH_IN_ACL and priority = 1001 and mtch = "''ip4''" and actions = "''next;''"
      and hint = None and wher = "''northd/ovn-northd.c:4520''"
      and ?lflows1.0 = "[twice_node, twice_node]" and get_uuid = flow_get_uuid
      and dp_table = flow_dp_table and sbflows = "[stored_row]"
      and ?lflows2.0 = "[twice_node, twice_node]" and rows = "[stored_row, twice_row]"]
  have c: "list_all (sbflow_conforms flow_get_uuid flow_dp_table flow_datapaths) [stored_row]"
    using stored_row_conforms by simp
  show ?thesis using th add_second push_stored c by blast
qed

text \<open>
  C1 as stated fails: the same flow added twice to an empty table gives two nodes, and with
  no rows in the southbound database the reconciliation inserts two rows with the same
  datapath, pipeline, table, priority, match and actions.
\<close>

theorem duplicate_flows_not_coalesced_counterexample:
  "ovn_lflow_add_at priority_hash flow_datapaths [] 0 S_SWITCH_IN_ACL 1001 ''ip4'' ''next;'' None
     ''northd/ovn-northd.c:4520'' = Inr [twice_node]
   \<and> ovn_lflow_add_at priority_hash flow_datapaths [twice_node] 0 S_SWITCH_IN_ACL 1001 ''ip4'' ''next;''
     None ''northd/ovn-northd.c:4520'' = Inr [twice_node, twice_node]
   \<and> push_lflows flow_get_uuid flow_dp_table flow_datapaths [] [twice_node, twice_node]
     = Inr [twice_row, twice_row]
   \<and> \<not> distinct (map row_identity [twice_row, twice_row])"
  using add_first add_second push_empty by simp

section \<open>Priorities of the ACL flows\<close>

lemma ovn_lflow_add_append:
  "ovn_lflow_add lflows stage priority mtch actions = lflows @ ovn_lflow_add [] stage priority mtch actions"
  by (simp add: ovn_lflow_add_def ovn_lflow_add_with_hint_def)

lemma ovn_lflow_add_with_hint_append:
  "ovn_lflow_add_with_hint lflows stage priority mtch actions hint
     = lflows @ ovn_lflow_add_with_hint [] stage priority mtch actions hint"
  by (simp add: ovn_lflow_add_with_hint_def)







































end
